theory Spec2Isabelle
  imports Complex_Main "HOL-Library.Product_Lexorder" "HOL-Library.Multiset"
begin

section \<open>Numbers and tensors\<close>

text \<open>
  The training script \<^verbatim>\<open>train_model.py\<close> computes with floating-point tensors. The
  model keeps the special values of IEEE arithmetic and the exact real number a finite
  value stands for: rounding, overflow and the sign of zero are not modelled. A finite
  value is \<open>Fin r\<close>; \<open>PInf\<close>, \<open>NInf\<close> and \<open>NaN\<close> are the two infinities and
  not-a-number. The operations below follow the IEEE rules for these values
  (\<open>0/0\<close>, \<open>inf - inf\<close>, \<open>0 * inf\<close> and \<open>inf/inf\<close> are \<open>NaN\<close>, and \<open>NaN\<close> is
  absorbing).
\<close>

datatype fl = Fin real | PInf | NInf | NaN

datatype error =
    ShapeMismatch       \<comment> \<open>RuntimeError: tensor sizes that do not broadcast, or a bad reshape\<close>
  | EmptyReduction      \<comment> \<open>IndexError or ValueError: min/max over no elements\<close>
  | ZeroDivisionError   \<comment> \<open>Python: \<open>cnt / len(labels)\<close> with an empty batch\<close>
  | NoneAttribute       \<comment> \<open>AttributeError: \<open>best_model.state_dict()\<close> on \<open>None\<close>\<close>
  | BatchSizeError      \<comment> \<open>ValueError: DataLoader with a batch size that is not positive\<close>

fun fneg :: "fl \<Rightarrow> fl" where
  "fneg (Fin a) = Fin (- a)"
| "fneg PInf = NInf"
| "fneg NInf = PInf"
| "fneg NaN = NaN"

fun fadd :: "fl \<Rightarrow> fl \<Rightarrow> fl" where
  "fadd NaN _ = NaN"
| "fadd _ NaN = NaN"
| "fadd (Fin a) (Fin b) = Fin (a + b)"
| "fadd PInf NInf = NaN"
| "fadd NInf PInf = NaN"
| "fadd PInf _ = PInf"
| "fadd _ PInf = PInf"
| "fadd NInf _ = NInf"
| "fadd _ NInf = NInf"

definition fsub :: "fl \<Rightarrow> fl \<Rightarrow> fl" where
  "fsub a b = fadd a (fneg b)"

fun fmul :: "fl \<Rightarrow> fl \<Rightarrow> fl" where
  "fmul NaN _ = NaN"
| "fmul _ NaN = NaN"
| "fmul (Fin a) (Fin b) = Fin (a * b)"
| "fmul (Fin a) PInf = (if a = 0 then NaN else if 0 < a then PInf else NInf)"
| "fmul (Fin a) NInf = (if a = 0 then NaN else if 0 < a then NInf else PInf)"
| "fmul PInf (Fin b) = (if b = 0 then NaN else if 0 < b then PInf else NInf)"
| "fmul NInf (Fin b) = (if b = 0 then NaN else if 0 < b then NInf else PInf)"
| "fmul PInf PInf = PInf"
| "fmul PInf NInf = NInf"
| "fmul NInf PInf = NInf"
| "fmul NInf NInf = PInf"

fun fdiv :: "fl \<Rightarrow> fl \<Rightarrow> fl" where
  "fdiv NaN _ = NaN"
| "fdiv _ NaN = NaN"
| "fdiv (Fin a) (Fin b) =
     (if b \<noteq> 0 then Fin (a / b)
      else if a = 0 then NaN else if 0 < a then PInf else NInf)"
| "fdiv (Fin a) PInf = Fin 0"
| "fdiv (Fin a) NInf = Fin 0"
| "fdiv PInf (Fin b) = (if 0 \<le> b then PInf else NInf)"
| "fdiv NInf (Fin b) = (if 0 \<le> b then NInf else PInf)"
| "fdiv PInf PInf = NaN"
| "fdiv PInf NInf = NaN"
| "fdiv NInf PInf = NaN"
| "fdiv NInf NInf = NaN"

fun fexp :: "fl \<Rightarrow> fl" where
  "fexp (Fin a) = Fin (exp a)"
| "fexp PInf = PInf"
| "fexp NInf = Fin 0"
| "fexp NaN = NaN"

fun flog2 :: "fl \<Rightarrow> fl" where
  "flog2 (Fin a) = (if 0 < a then Fin (log 2 a) else if a = 0 then NInf else NaN)"
| "flog2 PInf = PInf"
| "flog2 NInf = NaN"
| "flog2 NaN = NaN"

text \<open>The comparison \<open>a <= b\<close> of two floats: false as soon as one side is \<open>NaN\<close>.\<close>

fun fle :: "fl \<Rightarrow> fl \<Rightarrow> bool" where
  "fle NaN _ = False"
| "fle _ NaN = False"
| "fle NInf _ = True"
| "fle _ PInf = True"
| "fle (Fin a) (Fin b) = (a \<le> b)"
| "fle _ _ = False"

text \<open>
  A one-dimensional tensor is the list of its entries. \<open>torch.sum\<close> of no entries is 0.
  \<open>min\<close> and \<open>max\<close> along a dimension return \<open>NaN\<close> when an entry is \<open>NaN\<close> and
  raise on an empty dimension.
\<close>

type_synonym tensor = "fl list"

definition tsum :: "tensor \<Rightarrow> fl" where
  "tsum xs = foldr fadd xs (Fin 0)"

definition fmin2 :: "fl \<Rightarrow> fl \<Rightarrow> fl" where
  "fmin2 a b = (if a = NaN \<or> b = NaN then NaN else if fle a b then a else b)"

definition fmax2 :: "fl \<Rightarrow> fl \<Rightarrow> fl" where
  "fmax2 a b = (if a = NaN \<or> b = NaN then NaN else if fle a b then b else a)"

fun tmin :: "tensor \<Rightarrow> error + fl" where
  "tmin [] = Inl EmptyReduction"
| "tmin (x # xs) = Inr (fold fmin2 xs x)"

fun tmax :: "tensor \<Rightarrow> error + fl" where
  "tmax [] = Inl EmptyReduction"
| "tmax (x # xs) = Inr (fold fmax2 xs x)"

text \<open>A raised exception ends the computation: the rest runs only on a result.\<close>

definition ebind :: "error + 'a \<Rightarrow> ('a \<Rightarrow> error + 'b) \<Rightarrow> error + 'b" where
  "ebind m f = (case m of Inl e \<Rightarrow> Inl e | Inr x \<Rightarrow> f x)"

text \<open>
  An elementwise binary operation on two one-dimensional tensors, with torch's
  broadcasting: equal sizes combine pointwise, a tensor of size 1 is stretched to the
  other's size, and any other pair of sizes raises.
\<close>

definition ew :: "(fl \<Rightarrow> fl \<Rightarrow> fl) \<Rightarrow> tensor \<Rightarrow> tensor \<Rightarrow> error + tensor" where
  "ew f xs ys =
     (if length xs = length ys then Inr (map2 f xs ys)
      else if length xs = 1 then Inr (map (f (hd xs)) ys)
      else if length ys = 1 then Inr (map (\<lambda>x. f x (hd ys)) xs)
      else Inl ShapeMismatch)"

text \<open>
  \<open>F.softmax(x, dim=-1)\<close>, by its documented formula
  \<open>exp(x_i) / sum_j exp(x_j)\<close>. The library subtracts the largest entry before it
  exponentiates, which gives the same values on finite entries and \<open>NaN\<close> throughout
  as soon as one entry is \<open>NaN\<close>, as the formula does.
\<close>

definition softmax :: "tensor \<Rightarrow> tensor" where
  "softmax xs = (let es = map fexp xs; s = tsum es in map (\<lambda>e. fdiv e s) es)"

text \<open>
  Sorting. torch orders \<open>NaN\<close> above every number, so a descending sort lists \<open>NaN\<close>
  first, then \<open>+inf\<close>, the finite values from large to small, and \<open>-inf\<close>. The key
  below is increasing along that order. torch leaves the order of equal entries open
  unless \<open>stable=True\<close> is passed; the model fixes it to the stable one (equal entries
  keep their original order), which is also what the specification assumes.
\<close>

fun desc_key :: "fl \<Rightarrow> nat \<times> real" where
  "desc_key NaN = (0, 0)"
| "desc_key PInf = (1, 0)"
| "desc_key (Fin a) = (2, - a)"
| "desc_key NInf = (3, 0)"

text \<open>\<open>x.sort(descending=True)\<close>: the sorted values and the index each came from.\<close>

definition sort_desc :: "tensor \<Rightarrow> tensor \<times> nat list" where
  "sort_desc xs =
     (let ps = sort_key (\<lambda>p. desc_key (fst p)) (zip xs [0..<length xs])
      in (map fst ps, map snd ps))"

text \<open>\<open>torch.argsort(x, descending=True)\<close> on a float tensor.\<close>

definition argsort_desc :: "tensor \<Rightarrow> nat list" where
  "argsort_desc xs = snd (sort_desc xs)"

text \<open>\<open>torch.argsort(x)\<close> on a tensor of indices (ascending).\<close>

definition argsort :: "nat list \<Rightarrow> nat list" where
  "argsort js = map snd (sort_key fst (zip js [0..<length js]))"

section \<open>The line-rank divergence\<close>

text \<open>
  \<^verbatim>\<open>
  def kld(p, q, discounts):
      return (p * torch.log2(p / q) * discounts).sum()
  \<close>
\<close>

definition kld :: "tensor \<Rightarrow> tensor \<Rightarrow> tensor \<Rightarrow> error + fl" where
  "kld p q discounts =
     ebind (ew fdiv p q) (\<lambda>r.
     ebind (ew fmul p (map flog2 r)) (\<lambda>a.
     ebind (ew fmul a discounts) (\<lambda>b. Inr (tsum b))))"

text \<open>
  \<^verbatim>\<open>
  def jsd(pred, gt, epsilon=1e-8):
      top1_pred = F.softmax(pred, dim=-1)
      top1_gt = F.softmax(gt, dim=-1)
      m = 0.5 * (top1_pred + top1_gt + epsilon)
      sorted_indices = torch.argsort(gt, dim=-1, descending=True)
      ranks = torch.argsort(sorted_indices, dim=-1) + 1
      discounts = 1.0 / torch.log2(ranks.float() + 1)
      jsd = 0.5 * (kld(top1_pred, m, discounts) + kld(top1_gt, m, discounts))
      return jsd
  \<close>
\<close>

definition default_epsilon :: real where
  "default_epsilon = 1 / 10 ^ 8"

definition discount_of_rank :: "nat \<Rightarrow> fl" where
  "discount_of_rank r = fdiv (Fin 1) (flog2 (fadd (Fin (real r)) (Fin 1)))"

definition jsd :: "tensor \<Rightarrow> tensor \<Rightarrow> real \<Rightarrow> error + fl" where
  "jsd pred gt epsilon =
     (let top1_pred = softmax pred;
          top1_gt = softmax gt
      in ebind (ew fadd top1_pred top1_gt) (\<lambda>s.
         let m = map (\<lambda>x. fmul (Fin (1/2)) (fadd x (Fin epsilon))) s;
             sorted_indices = argsort_desc gt;
             ranks = map (\<lambda>i. i + 1) (argsort sorted_indices);
             discounts = map discount_of_rank ranks
         in ebind (kld top1_pred m discounts) (\<lambda>a.
            ebind (kld top1_gt m discounts) (\<lambda>b.
              Inr (fmul (Fin (1/2)) (fadd a b))))))"

section \<open>The loss of one batch\<close>

text \<open>
  The training loop (lines 195 to 220) and the validation loop (lines 255 to 280) hold
  the same computation under different variable names; one model serves both.

  \<^verbatim>\<open>
  att_mins = line_atts.min(dim=1, keepdim=True).values
  att_maxs = line_atts.max(dim=1, keepdim=True).values
  line_atts = (line_atts - att_mins) / (att_maxs - att_mins)
  \<close>
  \<open>line_atts\<close> has one row per example of the batch.
\<close>

definition minmax_row :: "tensor \<Rightarrow> error + tensor" where
  "minmax_row row =
     ebind (tmin row) (\<lambda>att_min.
     ebind (tmax row) (\<lambda>att_max.
       Inr (map (\<lambda>x. fdiv (fsub x att_min) (fsub att_max att_min)) row)))"

fun minmax :: "tensor list \<Rightarrow> error + tensor list" where
  "minmax [] = Inr []"
| "minmax (row # rows) =
     ebind (minmax_row row) (\<lambda>r. ebind (minmax rows) (\<lambda>rs. Inr (r # rs)))"

text \<open>
  The body of the loop over the examples, for an example that is not skipped:
  \<^verbatim>\<open>
  att = att[:len(line_label)]
  top_k = int(0.2 * len(line_label))
  sorted_att, sorted_indices = att.sort(descending=True, dim=-1)
  sorted_att = sorted_att[:top_k]
  sorted_indices = sorted_indices[:top_k]
  line_label = line_label[sorted_indices].to(args.device)
  line_loss = jsd(sorted_att, line_label)
  \<close>
  \<open>int(0.2 * n)\<close> is \<open>n div 5\<close> for every length a file can have (the double nearest
  to 0.2 lies above 1/5 by less than \<open>2e-17\<close>). The line labels are data, hence finite.
\<close>

definition example_line_loss :: "tensor \<Rightarrow> real list \<Rightarrow> error + fl" where
  "example_line_loss att line_label =
     (let att' = take (length line_label) att;
          top_k = length line_label div 5;
          (sorted_att, sorted_indices) = sort_desc att';
          sorted_att' = take top_k sorted_att;
          sorted_indices' = take top_k sorted_indices;
          line_label' = map (\<lambda>i. Fin (line_label ! i)) sorted_indices'
      in jsd sorted_att' line_label' default_epsilon)"

text \<open>
  \<^verbatim>\<open>
  cnt = 0
  train_line_losses = []
  for att, line_label, file_label in zip(line_atts, line_labels, labels):
      if file_label == 0. or not any(x == 1.0 for x in line_label):
          continue
      cnt += 1
      ...
      train_line_losses.append(line_loss)
  \<close>
  The result is \<open>cnt\<close> and the list of losses.
\<close>

definition skipped :: "real list \<Rightarrow> real \<Rightarrow> bool" where
  "skipped line_label file_label \<longleftrightarrow> file_label = 0 \<or> \<not> list_ex (\<lambda>x. x = 1) line_label"

fun line_losses :: "(tensor \<times> real list \<times> real) list \<Rightarrow> error + nat \<times> fl list" where
  "line_losses [] = Inr (0, [])"
| "line_losses ((att, line_label, file_label) # rest) =
     (if skipped line_label file_label then line_losses rest
      else ebind (example_line_loss att line_label) (\<lambda>line_loss.
           ebind (line_losses rest) (\<lambda>(cnt, losses). Inr (cnt + 1, line_loss # losses))))"

text \<open>\<open>torch.mean(torch.stack(losses), dim=0)\<close>, called on a non-empty list only.\<close>

definition tmean :: "tensor \<Rightarrow> fl" where
  "tmean xs = fdiv (tsum xs) (Fin (real (length xs)))"

text \<open>
  \<^verbatim>\<open>
  if len(train_line_losses) > 0:
      line_loss = torch.mean(torch.stack(train_line_losses), dim=0)
  else:
      line_loss = 0.
  k = args.k * (cnt / len(labels))
  loss = (1 - k) * file_loss + k * line_loss
  \<close>
  \<open>args.k\<close> is a finite Python float; \<open>cnt / len(labels)\<close> raises on an empty batch.
  The file loss comes from \<open>BCEWithLogitsLoss\<close> on the network's output and is an
  input here.
\<close>

definition aggregate_line_loss :: "fl list \<Rightarrow> fl" where
  "aggregate_line_loss losses = (if 0 < length losses then tmean losses else Fin 0)"

definition k_eff :: "real \<Rightarrow> nat \<Rightarrow> nat \<Rightarrow> error + real" where
  "k_eff k cnt n = (if n = 0 then Inl ZeroDivisionError else Inr (k * (real cnt / real n)))"

definition combined_loss :: "real \<Rightarrow> fl \<Rightarrow> fl \<Rightarrow> fl" where
  "combined_loss k file_loss line_loss =
     fadd (fmul (Fin (1 - k)) file_loss) (fmul (Fin k) line_loss)"

definition batch_loss ::
  "real \<Rightarrow> tensor list \<Rightarrow> real list list \<Rightarrow> real list \<Rightarrow> fl \<Rightarrow> error + fl" where
  "batch_loss k line_atts line_labels labels file_loss =
     ebind (minmax line_atts) (\<lambda>atts.
     ebind (line_losses (zip atts (zip line_labels labels))) (\<lambda>(cnt, losses).
     ebind (k_eff k cnt (length labels)) (\<lambda>k'.
       Inr (combined_loss k' file_loss (aggregate_line_loss losses)))))"

section \<open>Class weights\<close>

text \<open>
  \<^verbatim>\<open>
  sample_weights = compute_class_weight(class_weight='balanced',
                                        classes=np.unique(train_label), y=train_label)
  weight_dict = {}
  weight_dict['defect'] = np.max(sample_weights)
  weight_dict['clean'] = np.min(sample_weights)
  \<close>
  A file label is 0 (clean) or 1 (defective).
\<close>

text \<open>
  Modelled from the spec: \<open>compute_class_weight\<close> belongs to scikit-learn and is not
  part of the sources; the inverse-frequency rule \<open>w_c = total / (num_classes * count_c)\<close>,
  one weight per class present, in the increasing order of the classes that
  \<open>np.unique\<close> returns.
\<close>

definition compute_class_weight :: "real list \<Rightarrow> real list" where
  "compute_class_weight y =
     (let classes = sort (remdups y)
      in map (\<lambda>c. real (length y) / (real (length classes) * real (count_list y c))) classes)"

fun np_max :: "real list \<Rightarrow> error + real" where
  "np_max [] = Inl EmptyReduction"
| "np_max (x # xs) = Inr (fold max xs x)"

fun np_min :: "real list \<Rightarrow> error + real" where
  "np_min [] = Inl EmptyReduction"
| "np_min (x # xs) = Inr (fold min xs x)"

record weight_dict =
  clean :: real
  defect :: real

definition class_weights :: "real list \<Rightarrow> error + weight_dict" where
  "class_weights train_label =
     (let sample_weights = compute_class_weight train_label
      in ebind (np_max sample_weights) (\<lambda>mx.
         ebind (np_min sample_weights) (\<lambda>mn.
           Inr \<lparr>clean = mn, defect = mx\<rparr>)))"

text \<open>
  \<^verbatim>\<open>
  def get_loss_weight(labels, weight_dict, mode=None):
      label_list = labels.numpy().squeeze().tolist()
      weight_list = []
      if len(labels) == 1:
          label_list = [label_list]
      for lab in label_list:
          if lab == 0:
              weight_list.append(weight_dict['clean'])
          else:
              weight_list.append(weight_dict['defect'])
      weight_tensor = torch.tensor(weight_list).reshape(-1, 1)
      return weight_tensor
  \<close>
  The result is a column; the model lists its entries.
\<close>

definition get_loss_weight :: "real list \<Rightarrow> weight_dict \<Rightarrow> real list" where
  "get_loss_weight labels wd = map (\<lambda>lab. if lab = 0 then clean wd else defect wd) labels"

section \<open>Batches\<close>

text \<open>
  \<^verbatim>\<open>
  train_dl = DataLoader(x_train_vec, shuffle=True, batch_size=args.batch_size,
                        drop_last=True, collate_fn=collate_fn)
  valid_dl = DataLoader(x_valid_vec, shuffle=False, batch_size=args.batch_size,
                        drop_last=False, collate_fn=collate_fn)
  \<close>
  A \<open>DataLoader\<close> cuts the examples, in the order of the pass, into consecutive batches
  of \<open>batch_size\<close>; what remains at the end is a smaller batch, which \<open>drop_last\<close>
  discards. Its constructor rejects a batch size that is not positive. With
  \<open>shuffle=True\<close> the order of a pass is a fresh permutation of the examples, which is
  an input of the model.
\<close>

record example =
  input_ids :: "nat list list"
  label :: real
  line_label :: "real list"

function batches :: "nat \<Rightarrow> bool \<Rightarrow> 'a list \<Rightarrow> 'a list list" where
  "batches bs drop_last xs =
     (if bs = 0 \<or> xs = [] then []
      else if length xs < bs then (if drop_last then [] else [xs])
      else take bs xs # batches bs drop_last (drop bs xs))"
  by pat_completeness auto
termination
  by (relation "measure (\<lambda>(bs, drop_last, xs). length xs)") auto

declare batches.simps [simp del]

definition DataLoader :: "'a list \<Rightarrow> int \<Rightarrow> bool \<Rightarrow> error + 'a list list" where
  "DataLoader dataset batch_size drop_last =
     (if batch_size \<le> 0 then Inl BatchSizeError
      else Inr (batches (nat batch_size) drop_last dataset))"

definition train_dl :: "example list \<Rightarrow> int \<Rightarrow> error + example list list" where
  "train_dl x_train_vec batch_size = DataLoader x_train_vec batch_size True"

definition valid_dl :: "example list \<Rightarrow> int \<Rightarrow> error + example list list" where
  "valid_dl x_valid_vec batch_size = DataLoader x_valid_vec batch_size False"

text \<open>\<open>labels.reshape(n, 1)\<close> raises unless \<open>labels\<close> has \<open>n\<close> entries.\<close>

definition reshape :: "int \<Rightarrow> 'a list \<Rightarrow> error + 'a list list" where
  "reshape n xs = (if int (length xs) = n then Inr (map (\<lambda>x. [x]) xs) else Inl ShapeMismatch)"

section \<open>The training run\<close>

text \<open>
  The run model follows the control flow of \<open>train_model\<close> and its effects on the
  network, the optimizer and the files it writes. The network and the pretrained
  encoder are outside the sources, so three things are inputs: \<open>upd batch\<close>, the change
  that \<open>loss.backward()\<close> followed by \<open>optimizer.step()\<close> makes to the network's
  parameters and the optimizer's state on a batch; \<open>auc epoch\<close>, the value
  \<open>roc_auc_score\<close> returns after the validation pass of an epoch; and \<open>shuffle epoch\<close>,
  the order in which the training examples are visited in that epoch.

  \<open>model\<close> and \<open>best_model\<close> are references: the store \<open>heap\<close> maps an address to the
  parameters of the network object there, \<open>optimizer.step()\<close> writes at the address in
  \<open>model\<close>, and \<open>copy.deepcopy(model)\<close> allocates a fresh address.
\<close>

datatype op =
    ComputeClassWeight
  | GetLossWeight weight_dict
  | Backward
  | OptimizerStep
  | ZeroGrad
  | ClipGradNorm
  | EmptyCache
  | DeepCopy
  | TorchSave
  | ToCsv

record ('p, 'o) checkpoint =
  epoch :: int
  model_state_dict :: 'p
  optimizer_state_dict :: 'o

record ('p, 'o) run_state =
  heap :: "nat \<Rightarrow> 'p"
  next_addr :: nat
  model :: nat
  optimizer :: 'o
  best_auc :: real
  best_epoch :: int
  best_model :: "nat option"
  val_auc_all_epochs :: "real list"
  saved :: "('p, 'o) checkpoint list"
  csv_rows :: "nat list"
  ops :: "op list"

text \<open>
  One iteration of the training loop (lines 176 to 227), as far as the run is concerned:
  \<^verbatim>\<open>
  weight_tensor_file = get_loss_weight(labels, weight_dict, 'file')
  ...
  file_loss = criterion_file(output, labels.reshape(args.batch_size, 1).to(args.device))
  ...
  loss.backward()
  optimizer.step()
  optimizer.zero_grad()
  nn.utils.clip_grad_norm_(model.parameters(), args.max_grad_norm)
  torch.cuda.empty_cache()
  \<close>
\<close>

definition train_step ::
  "weight_dict \<Rightarrow> (example list \<Rightarrow> 'p \<times> 'o \<Rightarrow> 'p \<times> 'o) \<Rightarrow> int \<Rightarrow> example list \<Rightarrow>
   ('p, 'o) run_state \<Rightarrow> error + ('p, 'o) run_state" where
  "train_step wd upd batch_size batch s =
     (let labels = map label batch
      in ebind (reshape batch_size labels) (\<lambda>_.
         let (p, opt) = upd batch (heap s (model s), optimizer s)
         in Inr (s\<lparr>heap := (heap s)(model s := p), optimizer := opt,
                   ops := ops s @ [GetLossWeight wd, Backward, OptimizerStep, ZeroGrad,
                                   ClipGradNorm, EmptyCache]\<rparr>)))"

fun train_loop ::
  "weight_dict \<Rightarrow> (example list \<Rightarrow> 'p \<times> 'o \<Rightarrow> 'p \<times> 'o) \<Rightarrow> int \<Rightarrow> example list list \<Rightarrow>
   ('p, 'o) run_state \<Rightarrow> error + ('p, 'o) run_state" where
  "train_loop wd upd batch_size [] s = Inr s"
| "train_loop wd upd batch_size (batch # rest) s =
     ebind (train_step wd upd batch_size batch s) (train_loop wd upd batch_size rest)"

text \<open>
  \<^verbatim>\<open>
  if valid_auc >= best_auc:
      best_model = copy.deepcopy(model)
      best_auc = valid_auc
      best_epoch = epoch
  \<close>
\<close>

definition select_best :: "int \<Rightarrow> real \<Rightarrow> ('p, 'o) run_state \<Rightarrow> ('p, 'o) run_state" where
  "select_best ep valid_auc s =
     (if best_auc s \<le> valid_auc
      then s\<lparr>heap := (heap s)(next_addr s := heap s (model s)),
             next_addr := next_addr s + 1,
             best_model := Some (next_addr s),
             best_auc := valid_auc,
             best_epoch := ep,
             ops := ops s @ [DeepCopy]\<rparr>
      else s)"

text \<open>
  \<^verbatim>\<open>
  torch.save({'epoch': best_epoch,
              'model_state_dict': best_model.state_dict(),
              'optimizer_state_dict': optimizer.state_dict()},
             actual_save_model_dir + 'best_model.pth')
  \<close>
\<close>

definition torch_save :: "('p, 'o) run_state \<Rightarrow> error + ('p, 'o) run_state" where
  "torch_save s =
     (case best_model s of
        None \<Rightarrow> Inl NoneAttribute
      | Some b \<Rightarrow>
          Inr (s\<lparr>saved := saved s @ [\<lparr>epoch = best_epoch s, model_state_dict = heap s b,
                                       optimizer_state_dict = optimizer s\<rparr>],
                  ops := ops s @ [TorchSave]\<rparr>))"

text \<open>
  The body of the loop over the epochs (lines 171 to 312). The loss table written at the
  end of the body has one row per epoch so far; \<open>csv_rows\<close> records the number of rows
  of each write.
\<close>

definition run_epoch ::
  "weight_dict \<Rightarrow> (example list \<Rightarrow> 'p \<times> 'o \<Rightarrow> 'p \<times> 'o) \<Rightarrow> (int \<Rightarrow> example list \<Rightarrow> example list) \<Rightarrow>
   (int \<Rightarrow> real) \<Rightarrow> example list \<Rightarrow> int \<Rightarrow> int \<Rightarrow> int \<Rightarrow>
   ('p, 'o) run_state \<Rightarrow> error + ('p, 'o) run_state" where
  "run_epoch wd upd shuffle auc x_train_vec batch_size num_epochs ep s =
     ebind (train_loop wd upd batch_size
              (batches (nat batch_size) True (shuffle ep x_train_vec)) s) (\<lambda>s1.
       let valid_auc = auc ep;
           s2 = s1\<lparr>val_auc_all_epochs := val_auc_all_epochs s1 @ [valid_auc]\<rparr>;
           s3 = select_best ep valid_auc s2
       in ebind (if ep mod num_epochs = 0 then torch_save s3 else Inr s3) (\<lambda>s4.
            Inr (s4\<lparr>csv_rows := csv_rows s4 @ [length (val_auc_all_epochs s4)],
                    ops := ops s4 @ [ToCsv]\<rparr>)))"

fun run_epochs ::
  "weight_dict \<Rightarrow> (example list \<Rightarrow> 'p \<times> 'o \<Rightarrow> 'p \<times> 'o) \<Rightarrow> (int \<Rightarrow> example list \<Rightarrow> example list) \<Rightarrow>
   (int \<Rightarrow> real) \<Rightarrow> example list \<Rightarrow> int \<Rightarrow> int \<Rightarrow> int list \<Rightarrow>
   ('p, 'o) run_state \<Rightarrow> error + ('p, 'o) run_state" where
  "run_epochs wd upd shuffle auc x_train_vec batch_size num_epochs [] s = Inr s"
| "run_epochs wd upd shuffle auc x_train_vec batch_size num_epochs (ep # eps) s =
     ebind (run_epoch wd upd shuffle auc x_train_vec batch_size num_epochs ep s)
           (run_epochs wd upd shuffle auc x_train_vec batch_size num_epochs eps)"

text \<open>
  The state before the first epoch: the network object lives at address 0,
  \<^verbatim>\<open>
  best_auc = 0
  best_epoch = 0
  best_model = None
  \<close>
  and the class weights have been computed.
\<close>

definition init_state :: "'p \<Rightarrow> 'o \<Rightarrow> ('p, 'o) run_state" where
  "init_state p0 opt0 =
     \<lparr>heap = (\<lambda>_. p0), next_addr = 1, model = 0, optimizer = opt0,
      best_auc = 0, best_epoch = 0, best_model = None,
      val_auc_all_epochs = [], saved = [], csv_rows = [], ops = [ComputeClassWeight]\<rparr>"

text \<open>
  \<open>run_upto\<close> is the run after its first \<open>n\<close> epochs, \<open>train_model\<close> the whole run:
  \<open>for epoch in range(1, args.num_epochs + 1)\<close>.
\<close>

definition run_upto ::
  "(example list \<Rightarrow> 'p \<times> 'o \<Rightarrow> 'p \<times> 'o) \<Rightarrow> (int \<Rightarrow> example list \<Rightarrow> example list) \<Rightarrow>
   (int \<Rightarrow> real) \<Rightarrow> example list \<Rightarrow> int \<Rightarrow> int \<Rightarrow> 'p \<Rightarrow> 'o \<Rightarrow> int \<Rightarrow>
   error + ('p, 'o) run_state" where
  "run_upto upd shuffle auc x_train_vec batch_size num_epochs p0 opt0 n =
     ebind (class_weights (map label x_train_vec)) (\<lambda>weight_dict.
     ebind (train_dl x_train_vec batch_size) (\<lambda>_.
       run_epochs weight_dict upd shuffle auc x_train_vec batch_size num_epochs [1..n]
         (init_state p0 opt0)))"

definition train_model ::
  "(example list \<Rightarrow> 'p \<times> 'o \<Rightarrow> 'p \<times> 'o) \<Rightarrow> (int \<Rightarrow> example list \<Rightarrow> example list) \<Rightarrow>
   (int \<Rightarrow> real) \<Rightarrow> example list \<Rightarrow> int \<Rightarrow> int \<Rightarrow> 'p \<Rightarrow> 'o \<Rightarrow>
   error + ('p, 'o) run_state" where
  "train_model upd shuffle auc x_train_vec batch_size num_epochs p0 opt0 =
     run_upto upd shuffle auc x_train_vec batch_size num_epochs p0 opt0 num_epochs"

text \<open>
  For the statements about the run: the parameters of the network and the state of the
  optimizer at the end of epoch \<open>n\<close>, when the run starts from \<open>po\<close>.
\<close>

fun params_after ::
  "(example list \<Rightarrow> 'p \<times> 'o \<Rightarrow> 'p \<times> 'o) \<Rightarrow> (int \<Rightarrow> example list \<Rightarrow> example list) \<Rightarrow>
   example list \<Rightarrow> int \<Rightarrow> 'p \<times> 'o \<Rightarrow> nat \<Rightarrow> 'p \<times> 'o" where
  "params_after upd shuffle x_train_vec batch_size po 0 = po"
| "params_after upd shuffle x_train_vec batch_size po (Suc n) =
     fold upd (batches (nat batch_size) True (shuffle (int (Suc n)) x_train_vec))
       (params_after upd shuffle x_train_vec batch_size po n)"

text \<open>The library calls of one training iteration, in the order of the source.\<close>

definition step_ops :: "weight_dict \<Rightarrow> op list" where
  "step_ops wd = [GetLossWeight wd, Backward, OptimizerStep, ZeroGrad, ClipGradNorm, EmptyCache]"

text \<open>A small run, used to instantiate the theorems about the run.\<close>

definition demo_upd :: "example list \<Rightarrow> nat \<times> nat \<Rightarrow> nat \<times> nat" where
  "demo_upd batch po = (fst po + length batch, snd po + 1)"

definition demo_auc :: "int \<Rightarrow> real" where
  "demo_auc e = (if e = 1 then 6/10 else if e = 2 then 6/10 else if e = 3 then 55/100 else 7/10)"

definition demo_train :: "example list" where
  "demo_train = [\<lparr>input_ids = [[0]], label = 1, line_label = [1]\<rparr>,
                 \<lparr>input_ids = [[0]], label = 0, line_label = [0]\<rparr>,
                 \<lparr>input_ids = [[0]], label = 0, line_label = [0]\<rparr>]"

section \<open>The line-rank divergence on real numbers\<close>

text \<open>
  The formulas of the specification, written on exact real numbers, to compare the code
  with. \<open>softmax_real\<close> turns scores into a distribution. \<open>order_desc\<close> lists the
  positions of a vector by descending value, positions of equal value in their original
  order, and \<open>rank_in\<close> is the 1-based place of a position in such a list.
\<close>

definition softmax_real :: "real list \<Rightarrow> real list" where
  "softmax_real xs = map (\<lambda>x. exp x / sum_list (map exp xs)) xs"

definition order_desc :: "real list \<Rightarrow> nat list" where
  "order_desc xs = map snd (sort_key (\<lambda>p. - fst p) (zip xs [0..<length xs]))"

definition rank_in :: "nat list \<Rightarrow> nat \<Rightarrow> nat" where
  "rank_in order i = Suc (length (takeWhile (\<lambda>j. j \<noteq> i) order))"

definition discount :: "nat \<Rightarrow> real" where
  "discount r = 1 / log 2 (real r + 1)"

text \<open>\<open>KL(p, m, discount)\<close>: the sum of \<open>p_i * log2(p_i / m_i) * discount_i\<close> over the positions.\<close>

definition KL :: "real list \<Rightarrow> real list \<Rightarrow> real list \<Rightarrow> real" where
  "KL p m d = (\<Sum>i<length p. p ! i * log 2 (p ! i / m ! i) * d ! i)"

text \<open>
  The divergence with the mixture \<open>M = 0.5 * (P + Q) + off\<close>, where \<open>P\<close> and \<open>Q\<close> are the
  softmax of the two inputs and the discount of a position comes from its rank when the
  \<open>Q\<close> values are sorted descending.
\<close>

definition lrd_with :: "real \<Rightarrow> real list \<Rightarrow> real list \<Rightarrow> real" where
  "lrd_with off pred gt =
     (let P = softmax_real pred;
          Q = softmax_real gt;
          k = length P;
          M = map (\<lambda>i. (P ! i + Q ! i) / 2 + off) [0..<k];
          D = map (\<lambda>i. discount (rank_in (order_desc Q) i)) [0..<k]
      in (KL P M D + KL Q M D) / 2)"

text \<open>
  The share of one position in twice the divergence: its entries \<open>p\<close> and \<open>q\<close> of the
  two distributions, its discount \<open>d\<close>, and the mixture \<open>(p + q) / 2 + off\<close>.
\<close>

definition lrd_term :: "real \<Rightarrow> real \<Rightarrow> real \<Rightarrow> real \<Rightarrow> real" where
  "lrd_term off p q d =
     d * (p * log 2 (p / ((p + q) / 2 + off)) + q * log 2 (q / ((p + q) / 2 + off)))"

text \<open>The specification's wording: \<open>M = 0.5 * (P + Q) + epsilon\<close>.\<close>

definition lrd_spec :: "real list \<Rightarrow> real list \<Rightarrow> real \<Rightarrow> real" where
  "lrd_spec pred gt epsilon = lrd_with epsilon pred gt"

text \<open>The mixture of the code: \<open>M = 0.5 * (P + Q + epsilon)\<close>.\<close>

definition lrd_half :: "real list \<Rightarrow> real list \<Rightarrow> real \<Rightarrow> real" where
  "lrd_half pred gt epsilon = lrd_with (epsilon / 2) pred gt"

text \<open>
  The loss of one example by the specification: the top \<open>floor(0.2 * L)\<close> positions by
  attention, the attention scores and the line labels at those positions, and the
  divergence \<open>lrd\<close> of the two with the default \<open>epsilon\<close>.
\<close>

definition top_k_positions :: "real list \<Rightarrow> nat \<Rightarrow> nat list" where
  "top_k_positions att n = take (n div 5) (order_desc (take n att))"

definition line_loss_formula ::
  "(real list \<Rightarrow> real list \<Rightarrow> real \<Rightarrow> real) \<Rightarrow> real list \<Rightarrow> real list \<Rightarrow> real" where
  "line_loss_formula lrd att ll =
     (let idx = top_k_positions att (length ll)
      in lrd (map (\<lambda>i. att ! i) idx) (map (\<lambda>i. ll ! i) idx) default_epsilon)"

text \<open>
  A file of 160 lines whose last 32 lines are defective, with normalized attention
  rising from 0 on the first line to 1 on the last.
\<close>

definition long_att :: "real list" where
  "long_att = map (\<lambda>i. real i / 159) [0..<160]"

definition long_labels :: "real list" where
  "long_labels = replicate 128 0 @ replicate 32 1"

section \<open>The training run: lemmas\<close>

lemma ebind_Inr_iff: "ebind m f = Inr y \<longleftrightarrow> (\<exists>x. m = Inr x \<and> f x = Inr y)"
  by (cases m) (simp_all add: ebind_def)

lemma ebind_Inr [simp]: "ebind (Inr x) f = f x"
  by (simp add: ebind_def)

lemma ebind_Inl [simp]: "ebind (Inl e) f = Inl e"
  by (simp add: ebind_def)

lemma reshape_Inr_iff: "reshape n xs = Inr ys \<longleftrightarrow> int (length xs) = n \<and> ys = map (\<lambda>x. [x]) xs"
  by (auto simp: reshape_def)

lemma train_step_Inr:
  assumes "train_step wd upd bsz b s = Inr s'"
  shows "s' = s\<lparr>heap := (heap s)(model s := fst (upd b (heap s (model s), optimizer s))),
               optimizer := snd (upd b (heap s (model s), optimizer s)),
               ops := ops s @ step_ops wd\<rparr>" and "int (length b) = bsz"
  using assms
  by (auto simp: train_step_def ebind_Inr_iff reshape_Inr_iff step_ops_def split: prod.splits)

lemma train_step_ok:
  assumes "int (length b) = bsz"
  shows "\<exists>s'. train_step wd upd bsz b s = Inr s'"
  using assms by (auto simp: train_step_def reshape_def split: prod.splits)

lemma train_loop_Inr:
  assumes "train_loop wd upd bsz bs s = Inr s'"
  shows "s' = s\<lparr>heap := (heap s)(model s := fst (fold upd bs (heap s (model s), optimizer s))),
               optimizer := snd (fold upd bs (heap s (model s), optimizer s)),
               ops := ops s @ concat (map (\<lambda>_. step_ops wd) bs)\<rparr>"
  using assms
proof (induction bs arbitrary: s)
  case Nil
  then show ?case by simp
next
  case (Cons b bs)
  from Cons.prems obtain s1 where s1: "train_step wd upd bsz b s = Inr s1"
    and rest: "train_loop wd upd bsz bs s1 = Inr s'"
    by (auto simp: ebind_Inr_iff)
  note e1 = train_step_Inr(1)[OF s1]
  have e2: "s' = s1\<lparr>heap := (heap s1)(model s1 := fst (fold upd bs (heap s1 (model s1), optimizer s1))),
               optimizer := snd (fold upd bs (heap s1 (model s1), optimizer s1)),
               ops := ops s1 @ concat (map (\<lambda>_. step_ops wd) bs)\<rparr>"
    by (rule Cons.IH[OF rest])
  have m: "model s1 = model s" "heap s1 (model s) = fst (upd b (heap s (model s), optimizer s))"
    "optimizer s1 = snd (upd b (heap s (model s), optimizer s))"
    by (simp_all add: e1)
  show ?case
    unfolding e2 m unfolding e1 by (simp add: step_ops_def fun_upd_def cong: if_cong)
qed

lemma train_loop_ok:
  assumes "\<forall>b \<in> set bs. int (length b) = bsz"
  shows "\<exists>s'. train_loop wd upd bsz bs s = Inr s'"
  using assms
proof (induction bs arbitrary: s)
  case Nil
  then show ?case by simp
next
  case (Cons b bs)
  then obtain s1 where "train_step wd upd bsz b s = Inr s1"
    using train_step_ok[of b bsz wd upd s] by auto
  with Cons show ?case by auto
qed


lemma torch_save_Inr:
  assumes "torch_save s = Inr s'"
  shows "\<exists>b. best_model s = Some b \<and>
           s' = s\<lparr>saved := saved s @ [\<lparr>epoch = best_epoch s, model_state_dict = heap s b,
                                       optimizer_state_dict = optimizer s\<rparr>],
                  ops := ops s @ [TorchSave]\<rparr>"
  using assms by (auto simp: torch_save_def split: option.splits)

lemma run_epoch_split:
  assumes "run_epoch wd upd shuffle auc x bsz N e s = Inr s'"
  obtains s1 s4 where
    "train_loop wd upd bsz (batches (nat bsz) True (shuffle e x)) s = Inr s1" and
    "(if e mod N = 0
          then torch_save (select_best e (auc e) (s1\<lparr>val_auc_all_epochs := val_auc_all_epochs s1 @ [auc e]\<rparr>))
          else Inr (select_best e (auc e) (s1\<lparr>val_auc_all_epochs := val_auc_all_epochs s1 @ [auc e]\<rparr>))) = Inr s4" and
    "s' = s4\<lparr>csv_rows := csv_rows s4 @ [length (val_auc_all_epochs s4)], ops := ops s4 @ [ToCsv]\<rparr>"
  using assms unfolding run_epoch_def ebind_Inr_iff Let_def by blast


lemma select_best_fields:
  "model (select_best e a s) = model s"
  "best_auc (select_best e a s) = (if best_auc s \<le> a then a else best_auc s)"
  "best_epoch (select_best e a s) = (if best_auc s \<le> a then e else best_epoch s)"
  "best_model (select_best e a s) = (if best_auc s \<le> a then Some (next_addr s) else best_model s)"
  "next_addr (select_best e a s) = (if best_auc s \<le> a then next_addr s + 1 else next_addr s)"
  "optimizer (select_best e a s) = optimizer s"
  "heap (select_best e a s) = (if best_auc s \<le> a then (heap s)(next_addr s := heap s (model s)) else heap s)"
  "val_auc_all_epochs (select_best e a s) = val_auc_all_epochs s"
  "csv_rows (select_best e a s) = csv_rows s"
  "saved (select_best e a s) = saved s"
  "ops (select_best e a s) = (if best_auc s \<le> a then ops s @ [DeepCopy] else ops s)"
  by (simp_all add: select_best_def)

lemma maybe_save_fields:
  assumes "(if c then torch_save s else Inr s) = Inr s'"
  shows "model s' = model s" "best_auc s' = best_auc s" "best_epoch s' = best_epoch s"
    "best_model s' = best_model s" "next_addr s' = next_addr s" "optimizer s' = optimizer s"
    "heap s' = heap s" "val_auc_all_epochs s' = val_auc_all_epochs s" "csv_rows s' = csv_rows s"
    "saved s' = (if c then saved s @ [\<lparr>epoch = best_epoch s,
                                       model_state_dict = heap s (the (best_model s)),
                                       optimizer_state_dict = optimizer s\<rparr>]
                 else saved s)"
    "ops s' = (if c then ops s @ [TorchSave] else ops s)"
    "c \<Longrightarrow> best_model s \<noteq> None"
  using assms by (auto split: if_splits dest!: torch_save_Inr)


lemma train_loop_fields:
  assumes "train_loop wd upd bsz bs s = Inr s'"
  shows "model s' = model s" "best_auc s' = best_auc s" "best_epoch s' = best_epoch s"
    "best_model s' = best_model s" "next_addr s' = next_addr s"
    "optimizer s' = snd (fold upd bs (heap s (model s), optimizer s))"
    "heap s' = (heap s)(model s := fst (fold upd bs (heap s (model s), optimizer s)))"
    "val_auc_all_epochs s' = val_auc_all_epochs s" "csv_rows s' = csv_rows s"
    "saved s' = saved s"
    "ops s' = ops s @ concat (map (\<lambda>_. step_ops wd) bs)"
  by (simp_all add: train_loop_Inr[OF assms])

lemma run_epoch_Inr:
  assumes "run_epoch wd upd shuffle auc x bsz N e s = Inr s'"
  defines "po \<equiv> fold upd (batches (nat bsz) True (shuffle e x)) (heap s (model s), optimizer s)"
  shows "model s' = model s"
    and "best_auc s' = (if best_auc s \<le> auc e then auc e else best_auc s)"
    and "best_epoch s' = (if best_auc s \<le> auc e then e else best_epoch s)"
    and "best_model s' = (if best_auc s \<le> auc e then Some (next_addr s) else best_model s)"
    and "next_addr s' = (if best_auc s \<le> auc e then next_addr s + 1 else next_addr s)"
    and "optimizer s' = snd po"
    and "heap s' = (if best_auc s \<le> auc e
                    then ((heap s)(model s := fst po))(next_addr s := ((heap s)(model s := fst po)) (model s))
                    else (heap s)(model s := fst po))"
    and "val_auc_all_epochs s' = val_auc_all_epochs s @ [auc e]"
    and "csv_rows s' = csv_rows s @ [length (val_auc_all_epochs s) + 1]"
    and "saved s' = (if e mod N = 0
                     then saved s @ [\<lparr>epoch = best_epoch s',
                                       model_state_dict = heap s' (the (best_model s')),
                                       optimizer_state_dict = optimizer s'\<rparr>]
                     else saved s)"
    and "e mod N = 0 \<Longrightarrow> best_model s' \<noteq> None"
proof -
  from assms(1) obtain s1 s4 where
    s1: "train_loop wd upd bsz (batches (nat bsz) True (shuffle e x)) s = Inr s1" and
    s4: "(if e mod N = 0
          then torch_save (select_best e (auc e) (s1\<lparr>val_auc_all_epochs := val_auc_all_epochs s1 @ [auc e]\<rparr>))
          else Inr (select_best e (auc e) (s1\<lparr>val_auc_all_epochs := val_auc_all_epochs s1 @ [auc e]\<rparr>))) = Inr s4" and
    s': "s' = s4\<lparr>csv_rows := csv_rows s4 @ [length (val_auc_all_epochs s4)], ops := ops s4 @ [ToCsv]\<rparr>"
    by (rule run_epoch_split)
  note f1 = train_loop_fields[OF s1, folded po_def]
  note f4 = maybe_save_fields[OF s4]
  show "model s' = model s"
    by (simp add: s' f4 select_best_fields f1)
  show "best_auc s' = (if best_auc s \<le> auc e then auc e else best_auc s)"
    by (simp add: s' f4 select_best_fields f1)
  show "best_epoch s' = (if best_auc s \<le> auc e then e else best_epoch s)"
    by (simp add: s' f4 select_best_fields f1)
  show "best_model s' = (if best_auc s \<le> auc e then Some (next_addr s) else best_model s)"
    by (simp add: s' f4 select_best_fields f1)
  show "next_addr s' = (if best_auc s \<le> auc e then next_addr s + 1 else next_addr s)"
    by (simp add: s' f4 select_best_fields f1)
  show "optimizer s' = snd po"
    by (simp add: s' f4 select_best_fields f1)
  show "heap s' = (if best_auc s \<le> auc e
                    then ((heap s)(model s := fst po))(next_addr s := ((heap s)(model s := fst po)) (model s))
                    else (heap s)(model s := fst po))"
    by (simp add: s' f4 select_best_fields f1)
  show "val_auc_all_epochs s' = val_auc_all_epochs s @ [auc e]"
    by (simp add: s' f4 select_best_fields f1)
  show "csv_rows s' = csv_rows s @ [length (val_auc_all_epochs s) + 1]"
    by (simp add: s' f4 select_best_fields f1)
  show "saved s' = (if e mod N = 0
                     then saved s @ [\<lparr>epoch = best_epoch s',
                                       model_state_dict = heap s' (the (best_model s')),
                                       optimizer_state_dict = optimizer s'\<rparr>]
                     else saved s)"
    by (simp add: s' f4 select_best_fields f1)
  show "e mod N = 0 \<Longrightarrow> best_model s' \<noteq> None"
    using f4(12) by (simp add: s' f4(1-9) select_best_fields f1)
qed

lemma batches_full:
  "b \<in> set (batches bs dl xs) \<Longrightarrow> dl \<Longrightarrow> length b = bs"
proof (induction bs dl xs rule: batches.induct)
  case (1 bs dl xs)
  show ?case
  proof (cases "bs = 0 \<or> xs = [] \<or> length xs < bs")
    case True
    with "1.prems" show ?thesis by (subst (asm) batches.simps) (auto split: if_splits)
  next
    case False
    with "1.prems" have "b = take bs xs \<or> b \<in> set (batches bs dl (drop bs xs))"
      by (subst (asm) batches.simps) auto
    with False "1.IH" "1.prems"(2) show ?thesis by auto
  qed
qed

lemma batches_drop_last_length:
  "b \<in> set (batches bs True xs) \<Longrightarrow> length b = bs"
  by (rule batches_full) simp_all

lemma run_epoch_ok:
  assumes "0 < bsz" and "e mod N = 0 \<longrightarrow> best_model s \<noteq> None \<or> best_auc s \<le> auc e"
  shows "\<exists>s'. run_epoch wd upd shuffle auc x bsz N e s = Inr s'"
proof -
  have "\<forall>b \<in> set (batches (nat bsz) True (shuffle e x)). int (length b) = bsz"
    using assms(1) by (auto dest: batches_drop_last_length)
  from train_loop_ok[OF this] obtain s1 where
    s1: "train_loop wd upd bsz (batches (nat bsz) True (shuffle e x)) s = Inr s1" by blast
  define s3 where "s3 = select_best e (auc e) (s1\<lparr>val_auc_all_epochs := val_auc_all_epochs s1 @ [auc e]\<rparr>)"
  have "e mod N = 0 \<Longrightarrow> best_model s3 \<noteq> None"
    using assms(2) by (auto simp: s3_def select_best_fields train_loop_fields[OF s1])
  then have "\<exists>s4. (if e mod N = 0 then torch_save s3 else Inr s3) = Inr s4"
    by (auto simp: torch_save_def split: option.splits)
  then obtain s4 where s4: "(if e mod N = 0 then torch_save s3 else Inr s3) = Inr s4" by blast
  have "run_epoch wd upd shuffle auc x bsz N e s =
        ebind (if e mod N = 0 then torch_save s3 else Inr s3)
          (\<lambda>s4. Inr (s4\<lparr>csv_rows := csv_rows s4 @ [length (val_auc_all_epochs s4)],
                          ops := ops s4 @ [ToCsv]\<rparr>))"
    unfolding run_epoch_def s1 Let_def s3_def by simp
  then show ?thesis unfolding s4 by simp
qed

lemma run_epochs_append:
  "run_epochs wd upd shuffle auc x bsz N (es @ es') s =
   ebind (run_epochs wd upd shuffle auc x bsz N es s) (run_epochs wd upd shuffle auc x bsz N es')"
proof (induction es arbitrary: s)
  case Nil
  show ?case by simp
next
  case (Cons e es)
  show ?case
    by (cases "run_epoch wd upd shuffle auc x bsz N e s") (simp_all add: Cons.IH)
qed

lemma upto_Suc_snoc: "[1..int (Suc n)] = [1..int n] @ [int n + 1]"
  by (simp add: upto_rec2)

lemma run_epochs_Suc:
  "run_epochs wd upd shuffle auc x bsz N [1..int (Suc n)] s =
   ebind (run_epochs wd upd shuffle auc x bsz N [1..int n] s)
         (run_epoch wd upd shuffle auc x bsz N (int n + 1))"
proof -
  have "run_epochs wd upd shuffle auc x bsz N [int n + 1] = run_epoch wd upd shuffle auc x bsz N (int n + 1)"
    by (rule ext) (simp add: ebind_def split: sum.splits)
  then show ?thesis
    unfolding upto_Suc_snoc run_epochs_append by simp
qed

lemma run_epochs_Suc_Inr:
  assumes "run_epochs wd upd shuffle auc x bsz N [1..int (Suc n)] s = Inr s'"
  obtains s0 where "run_epochs wd upd shuffle auc x bsz N [1..int n] s = Inr s0"
    and "run_epoch wd upd shuffle auc x bsz N (int n + 1) s0 = Inr s'"
  using assms unfolding run_epochs_Suc ebind_Inr_iff by blast

lemma run_heap_inv:
  assumes "run_epochs wd upd shuffle auc x bsz N [1..int n] (init_state p0 o0) = Inr s"
  shows "model s = 0 \<and> 0 < next_addr s \<and>
         (heap s 0, optimizer s) = params_after upd shuffle x bsz (p0, o0) n \<and>
         val_auc_all_epochs s = map auc [1..int n] \<and>
         (\<forall>b. best_model s = Some b \<longrightarrow>
            0 < b \<and> b < next_addr s \<and> 0 \<le> best_epoch s \<and> nat (best_epoch s) \<le> n \<and>
            heap s b = fst (params_after upd shuffle x bsz (p0, o0) (nat (best_epoch s))))"
  using assms
proof (induction n arbitrary: s)
  case 0
  then have "s = init_state p0 o0" by simp
  then show ?case by (simp add: init_state_def)
next
  case (Suc n)
  from Suc.prems obtain s0 where
    s0: "run_epochs wd upd shuffle auc x bsz N [1..int n] (init_state p0 o0) = Inr s0" and
    st: "run_epoch wd upd shuffle auc x bsz N (int n + 1) s0 = Inr s"
    by (rule run_epochs_Suc_Inr)
  note ih = Suc.IH[OF s0]
  note f = run_epoch_Inr[OF st]
  have m0: "model s0 = 0" and na: "0 < next_addr s0" using ih by simp_all
  have pa: "fold upd (batches (nat bsz) True (shuffle (int n + 1) x)) (heap s0 (model s0), optimizer s0)
            = params_after upd shuffle x bsz (p0, o0) (Suc n)"
    using ih by (simp add: m0 add.commute)
  have h0: "heap s 0 = fst (params_after upd shuffle x bsz (p0, o0) (Suc n))"
    unfolding f(7) pa using na by (simp add: m0)
  have o: "optimizer s = snd (params_after upd shuffle x bsz (p0, o0) (Suc n))"
    by (simp only: f(6) pa)
  have v: "val_auc_all_epochs s = map auc [1..int (Suc n)]"
    using ih by (simp add: f(8) upto_Suc_snoc del: of_nat_Suc)
  have b: "0 < b \<and> b < next_addr s \<and> 0 \<le> best_epoch s \<and> nat (best_epoch s) \<le> Suc n \<and>
            heap s b = fst (params_after upd shuffle x bsz (p0, o0) (nat (best_epoch s)))"
    if bm: "best_model s = Some b" for b
  proof (cases "best_auc s0 \<le> auc (int n + 1)")
    case True
    then have "b = next_addr s0" "best_epoch s = int n + 1" "next_addr s = next_addr s0 + 1"
      using bm by (simp_all add: f)
    moreover have "heap s (next_addr s0) = fst (params_after upd shuffle x bsz (p0, o0) (Suc n))"
      unfolding f(7) pa using True by (simp add: m0)
    moreover have "nat (int n + 1) = Suc n" by simp
    ultimately show ?thesis using na by simp
  next
    case False
    then have b0: "best_model s0 = Some b" and be: "best_epoch s = best_epoch s0"
      and nx: "next_addr s = next_addr s0"
      using bm by (simp_all add: f)
    from ih b0 have i: "0 < b" "b < next_addr s0" "0 \<le> best_epoch s0" "nat (best_epoch s0) \<le> n"
      "heap s0 b = fst (params_after upd shuffle x bsz (p0, o0) (nat (best_epoch s0)))"
      by simp_all
    have "heap s b = heap s0 b" unfolding f(7) pa using False i(1) by (simp add: m0)
    with i show ?thesis by (simp add: be nx)
  qed
  show ?case
    using h0 o v b by (simp add: f(1) m0 f(5) na del: of_nat_Suc params_after.simps)
qed

lemma run_best_inv:
  assumes "run_epochs wd upd shuffle auc x bsz N [1..int n] (init_state p0 o0) = Inr s"
    and "\<forall>e \<in> {1..int n}. 0 \<le> auc e"
  shows "(n = 0 \<longrightarrow> best_auc s = 0 \<and> best_epoch s = 0 \<and> best_model s = None) \<and>
         (0 < n \<longrightarrow> best_epoch s \<in> {1..int n} \<and> auc (best_epoch s) = best_auc s \<and>
                    (\<forall>e \<in> {1..int n}. auc e \<le> best_auc s \<and> (auc e = best_auc s \<longrightarrow> e \<le> best_epoch s)) \<and>
                    best_model s \<noteq> None)"
  using assms
proof (induction n arbitrary: s)
  case 0
  then have "s = init_state p0 o0" by simp
  then show ?case by (simp add: init_state_def)
next
  case (Suc n)
  from Suc.prems(1) obtain s0 where
    s0: "run_epochs wd upd shuffle auc x bsz N [1..int n] (init_state p0 o0) = Inr s0" and
    st: "run_epoch wd upd shuffle auc x bsz N (int n + 1) s0 = Inr s"
    by (rule run_epochs_Suc_Inr)
  have pos: "\<forall>e \<in> {1..int n}. 0 \<le> auc e" and posn: "0 \<le> auc (int n + 1)"
    using Suc.prems(2) by auto
  note ih = Suc.IH[OF s0 pos]
  note f = run_epoch_Inr[OF st]
  have split: "e \<in> {1..int (Suc n)} \<longleftrightarrow> e \<in> {1..int n} \<or> e = int n + 1" for e by auto
  show ?case
  proof (cases "best_auc s0 \<le> auc (int n + 1)")
    case True
    have le: "auc e \<le> auc (int n + 1)" if "e \<in> {1..int n}" for e
    proof (cases "n = 0")
      case True with that show ?thesis by simp
    next
      case False
      with ih that have "auc e \<le> best_auc s0" by blast
      with True show ?thesis by simp
    qed
    from True have "best_auc s = auc (int n + 1)" "best_epoch s = int n + 1" "best_model s \<noteq> None"
      by (simp_all add: f)
    moreover have "auc e \<le> auc (int n + 1) \<and> (auc e = auc (int n + 1) \<longrightarrow> e \<le> int n + 1)"
      if "e \<in> {1..int (Suc n)}" for e
      using that le[of e] by (cases "e = int n + 1") auto
    ultimately show ?thesis by (simp del: of_nat_Suc)
  next
    case False
    with posn have n0: "0 < n" using ih by (cases "n = 0") auto
    from False have e: "best_auc s = best_auc s0" "best_epoch s = best_epoch s0" "best_model s = best_model s0"
      by (simp_all add: f)
    from ih n0 have i: "best_epoch s0 \<in> {1..int n}" "auc (best_epoch s0) = best_auc s0"
      "\<forall>e \<in> {1..int n}. auc e \<le> best_auc s0 \<and> (auc e = best_auc s0 \<longrightarrow> e \<le> best_epoch s0)"
      "best_model s0 \<noteq> None" by blast+
    have "auc e \<le> best_auc s0 \<and> (auc e = best_auc s0 \<longrightarrow> e \<le> best_epoch s0)"
      if "e \<in> {1..int (Suc n)}" for e
    proof (cases "e = int n + 1")
      case True
      with False show ?thesis by simp
    next
      case False
      with that have "e \<in> {1..int n}" by auto
      with i(3) show ?thesis by blast
    qed
    moreover have "best_epoch s0 \<in> {1..int (Suc n)}" using i(1) by auto
    ultimately show ?thesis unfolding e using i(2,4) by (simp del: of_nat_Suc)
  qed
qed

lemma run_saved_inv:
  assumes "run_epochs wd upd shuffle auc x bsz N [1..int n] (init_state p0 o0) = Inr s"
    and "int n \<le> N"
  shows "saved s = (if 0 < n \<and> int n = N
                    then [\<lparr>epoch = best_epoch s, model_state_dict = heap s (the (best_model s)),
                           optimizer_state_dict = optimizer s\<rparr>]
                    else [])"
  using assms
proof (induction n arbitrary: s)
  case 0
  then have "s = init_state p0 o0" by simp
  then show ?case by (simp add: init_state_def)
next
  case (Suc n)
  from Suc.prems(1) obtain s0 where
    s0: "run_epochs wd upd shuffle auc x bsz N [1..int n] (init_state p0 o0) = Inr s0" and
    st: "run_epoch wd upd shuffle auc x bsz N (int n + 1) s0 = Inr s"
    by (rule run_epochs_Suc_Inr)
  from Suc.prems(2) have lt: "int n < N" by simp
  then have "saved s0 = []" using Suc.IH[OF s0] by simp
  moreover have "(int n + 1) mod N = 0 \<longleftrightarrow> int n + 1 = N"
  proof
    assume "(int n + 1) mod N = 0"
    then have "N dvd int n + 1" by (simp add: dvd_eq_mod_eq_0)
    then have "N \<le> int n + 1" by (rule zdvd_imp_le) simp
    with lt show "int n + 1 = N" by simp
  qed simp
  ultimately show ?case
    using run_epoch_Inr(10)[OF st] by (simp add: add.commute)
qed

lemma run_epochs_ok:
  assumes "0 < bsz" and "int n \<le> N" and "\<forall>e \<in> {1..int n}. 0 \<le> auc e"
  shows "\<exists>s. run_epochs wd upd shuffle auc x bsz N [1..int n] (init_state p0 o0) = Inr s"
  using assms(2,3)
proof (induction n)
  case 0
  show ?case by simp
next
  case (Suc n)
  then obtain s0 where
    s0: "run_epochs wd upd shuffle auc x bsz N [1..int n] (init_state p0 o0) = Inr s0" by auto
  have pos: "\<forall>e \<in> {1..int n}. 0 \<le> auc e" and posn: "0 \<le> auc (int n + 1)"
    using Suc.prems(2) by auto
  have "best_model s0 \<noteq> None \<or> best_auc s0 \<le> auc (int n + 1)"
    using run_best_inv[OF s0 pos] posn by (cases "n = 0") auto
  from run_epoch_ok[OF assms(1), of "int n + 1" N s0 auc wd upd shuffle x] this
  obtain s where "run_epoch wd upd shuffle auc x bsz N (int n + 1) s0 = Inr s" by blast
  then show ?case unfolding run_epochs_Suc s0 by simp
qed

lemma np_max_ok: "xs \<noteq> [] \<Longrightarrow> \<exists>m. np_max xs = Inr m"
  by (cases xs) simp_all

lemma np_min_ok: "xs \<noteq> [] \<Longrightarrow> \<exists>m. np_min xs = Inr m"
  by (cases xs) simp_all

lemma compute_class_weight_nonempty:
  assumes "y \<noteq> []"
  shows "compute_class_weight y \<noteq> []"
proof -
  have "set (sort (remdups y)) = set y" by simp
  with assms have "sort (remdups y) \<noteq> []" by (metis set_empty)
  then show ?thesis by (simp add: compute_class_weight_def Let_def)
qed

lemma class_weights_ok:
  assumes "y \<noteq> []"
  shows "\<exists>wd. class_weights y = Inr wd"
proof -
  from assms have ne: "compute_class_weight y \<noteq> []" by (rule compute_class_weight_nonempty)
  from np_max_ok[OF ne] np_min_ok[OF ne] show ?thesis
    by (auto simp: class_weights_def Let_def)
qed

lemma run_upto_eq:
  assumes "class_weights (map label x) = Inr wd" and "0 < bsz"
  shows "run_upto upd shuffle auc x bsz N p0 o0 n =
         run_epochs wd upd shuffle auc x bsz N [1..n] (init_state p0 o0)"
  using assms by (simp add: run_upto_def train_dl_def DataLoader_def)

lemma run_upto_ok:
  assumes "x \<noteq> []" and "0 < bsz" and "0 \<le> n" and "n \<le> N" and "\<forall>e \<in> {1..n}. 0 \<le> auc e"
  shows "\<exists>s. run_upto upd shuffle auc x bsz N p0 o0 n = Inr s"
proof -
  from assms(1) obtain wd where wd: "class_weights (map label x) = Inr wd"
    using class_weights_ok[of "map label x"] by auto
  have n: "int (nat n) = n" using assms(3) by simp
  from run_epochs_ok[of bsz "nat n" N auc wd upd shuffle x p0 o0] assms(2,4,5)
  show ?thesis unfolding run_upto_eq[OF wd assms(2)] n by simp
qed

lemma run_upto_Inr:
  assumes "run_upto upd shuffle auc x bsz N p0 o0 n = Inr s" and "0 \<le> n"
  obtains wd where "class_weights (map label x) = Inr wd" and "0 < bsz"
    and "run_epochs wd upd shuffle auc x bsz N [1..int (nat n)] (init_state p0 o0) = Inr s"
proof -
  from assms(1) obtain wd where wd: "class_weights (map label x) = Inr wd"
    by (auto simp: run_upto_def ebind_Inr_iff)
  from assms(1) have b: "0 < bsz"
    by (auto simp: run_upto_def ebind_Inr_iff train_dl_def DataLoader_def split: if_splits)
  from assms show ?thesis using that[OF wd b] by (simp add: run_upto_eq[OF wd b])
qed

text \<open>
  C6. After the configured number of epochs (at least one), with validation AUCs that are
  not negative, the run ends in a state where \<open>best_auc\<close> is the maximum of the AUCs of
  all epochs and \<open>best_epoch\<close> is the latest epoch that reached it (a tie replaces the
  snapshot by the later epoch's). \<open>best_model\<close> refers to an object other than the
  live network, and that object holds the parameters the network had at the end of
  \<open>best_epoch\<close>, whatever the training steps of later epochs did to the network.
\<close>

theorem selector_keeps_latest_best:
  assumes "x_train_vec \<noteq> []" and "0 < batch_size" and "1 \<le> num_epochs"
    and "\<forall>e \<in> {1..num_epochs}. 0 \<le> auc e"
  shows "\<exists>s b. train_model upd shuffle auc x_train_vec batch_size num_epochs p0 opt0 = Inr s \<and>
           best_auc s = Max (auc ` {1..num_epochs}) \<and>
           best_epoch s \<in> {1..num_epochs} \<and>
           auc (best_epoch s) = best_auc s \<and>
           (\<forall>e \<in> {1..num_epochs}. auc e = best_auc s \<longrightarrow> e \<le> best_epoch s) \<and>
           best_model s = Some b \<and> b \<noteq> model s \<and>
           heap s b = fst (params_after upd shuffle x_train_vec batch_size (p0, opt0) (nat (best_epoch s))) \<and>
           heap s (model s) = fst (params_after upd shuffle x_train_vec batch_size (p0, opt0) (nat num_epochs))"
proof -
  have n0: "0 \<le> num_epochs" using assms(3) by simp
  from run_upto_ok[where upd=upd and shuffle=shuffle and ?p0.0=p0 and ?o0.0=opt0, OF assms(1,2) n0 order_refl assms(4)] obtain s where
    s: "run_upto upd shuffle auc x_train_vec batch_size num_epochs p0 opt0 num_epochs = Inr s"
    by blast
  from run_upto_Inr[OF s n0] obtain wd where
    r: "run_epochs wd upd shuffle auc x_train_vec batch_size num_epochs [1..int (nat num_epochs)]
          (init_state p0 opt0) = Inr s" by blast
  have n: "int (nat num_epochs) = num_epochs" "0 < nat num_epochs" using assms(3) by simp_all
  from run_best_inv[OF r] assms(4) n have
    be: "best_epoch s \<in> {1..num_epochs}" and ab: "auc (best_epoch s) = best_auc s" and
    mx: "\<forall>e \<in> {1..num_epochs}. auc e \<le> best_auc s \<and> (auc e = best_auc s \<longrightarrow> e \<le> best_epoch s)" and
    bm: "best_model s \<noteq> None"
    by simp_all
  from bm obtain b where b: "best_model s = Some b" by auto
  from run_heap_inv[OF r] b have
    h: "model s = 0" "0 < b" "(heap s 0, optimizer s) = params_after upd shuffle x_train_vec batch_size (p0, opt0) (nat num_epochs)"
    "heap s b = fst (params_after upd shuffle x_train_vec batch_size (p0, opt0) (nat (best_epoch s)))"
    by simp_all
  have "best_auc s = Max (auc ` {1..num_epochs})"
  proof (rule sym, rule Max_eqI)
    show "finite (auc ` {1..num_epochs})" by simp
    show "y \<le> best_auc s" if "y \<in> auc ` {1..num_epochs}" for y using that mx by auto
    show "best_auc s \<in> auc ` {1..num_epochs}" using be ab by (metis imageI)
  qed
  moreover have "heap s (model s) = fst (params_after upd shuffle x_train_vec batch_size (p0, opt0) (nat num_epochs))"
    by (simp add: h(1) h(3)[symmetric])
  moreover have "b \<noteq> model s" using h(1,2) by simp
  moreover have "\<forall>e \<in> {1..num_epochs}. auc e = best_auc s \<longrightarrow> e \<le> best_epoch s"
    using mx by blast
  moreover note s[folded train_model_def] be ab b h(4)
  ultimately show ?thesis by (intro exI[of _ s] exI[of _ b] conjI)
qed

text \<open>
  C7. For a run of at least one epoch, \<open>torch.save\<close> is called exactly once, in the
  last epoch, with the best epoch, the parameters of the best snapshot and the
  optimizer's state at that moment; after any smaller number of epochs of the same run
  nothing has been saved.
\<close>

theorem checkpoint_written_once:
  assumes "x_train_vec \<noteq> []" and "0 < batch_size" and "1 \<le> num_epochs"
    and "\<forall>e \<in> {1..num_epochs}. 0 \<le> auc e"
  shows "\<exists>s. train_model upd shuffle auc x_train_vec batch_size num_epochs p0 opt0 = Inr s \<and>
           saved s =
             [\<lparr>epoch = best_epoch s,
               model_state_dict =
                 fst (params_after upd shuffle x_train_vec batch_size (p0, opt0) (nat (best_epoch s))),
               optimizer_state_dict =
                 snd (params_after upd shuffle x_train_vec batch_size (p0, opt0) (nat num_epochs))\<rparr>] \<and>
           (\<forall>n. 0 \<le> n \<and> n < num_epochs \<longrightarrow>
              (\<exists>s'. run_upto upd shuffle auc x_train_vec batch_size num_epochs p0 opt0 n = Inr s' \<and>
                    saved s' = []))"
proof -
  have n0: "0 \<le> num_epochs" using assms(3) by simp
  from run_upto_ok[where upd=upd and shuffle=shuffle and ?p0.0=p0 and ?o0.0=opt0, OF assms(1,2) n0 order_refl assms(4)] obtain s where
    s: "run_upto upd shuffle auc x_train_vec batch_size num_epochs p0 opt0 num_epochs = Inr s"
    by blast
  from run_upto_Inr[OF s n0] obtain wd where
    r: "run_epochs wd upd shuffle auc x_train_vec batch_size num_epochs [1..int (nat num_epochs)]
          (init_state p0 opt0) = Inr s" by blast
  have n: "int (nat num_epochs) = num_epochs" "0 < nat num_epochs" using assms(3) by simp_all
  from run_best_inv[OF r] assms(4) n obtain b where b: "best_model s = Some b" by auto
  from run_heap_inv[OF r] b have
    h: "(heap s 0, optimizer s) = params_after upd shuffle x_train_vec batch_size (p0, opt0) (nat num_epochs)"
    "heap s b = fst (params_after upd shuffle x_train_vec batch_size (p0, opt0) (nat (best_epoch s)))"
    by simp_all
  have o: "optimizer s = snd (params_after upd shuffle x_train_vec batch_size (p0, opt0) (nat num_epochs))"
    by (simp add: h(1)[symmetric])
  have sv: "saved s = [\<lparr>epoch = best_epoch s, model_state_dict = heap s (the (best_model s)),
                           optimizer_state_dict = optimizer s\<rparr>]"
    using run_saved_inv[OF r] n by simp
  have early: "\<exists>s'. run_upto upd shuffle auc x_train_vec batch_size num_epochs p0 opt0 m = Inr s' \<and> saved s' = []"
    if m: "0 \<le> m \<and> m < num_epochs" for m
  proof -
    from m have le: "m \<le> num_epochs" and m0: "0 \<le> m" by simp_all
    have pos: "\<forall>e \<in> {1..m}. 0 \<le> auc e" using assms(4) m by auto
    from run_upto_ok[where upd=upd and shuffle=shuffle and ?p0.0=p0 and ?o0.0=opt0, OF assms(1,2) m0 le pos] obtain s' where
      s': "run_upto upd shuffle auc x_train_vec batch_size num_epochs p0 opt0 m = Inr s'" by blast
    from run_upto_Inr[OF s' m0] obtain wd' where
      r': "run_epochs wd' upd shuffle auc x_train_vec batch_size num_epochs [1..int (nat m)]
            (init_state p0 opt0) = Inr s'" by blast
    have "saved s' = []" using run_saved_inv[OF r'] m by simp
    with s' show ?thesis by blast
  qed
  have "saved s =
             [\<lparr>epoch = best_epoch s,
               model_state_dict =
                 fst (params_after upd shuffle x_train_vec batch_size (p0, opt0) (nat (best_epoch s))),
               optimizer_state_dict =
                 snd (params_after upd shuffle x_train_vec batch_size (p0, opt0) (nat num_epochs))\<rparr>]"
    unfolding sv b o by (simp add: h(2))
  with s[folded train_model_def] early show ?thesis by blast
qed

theorem selector_keeps_latest_best_witness:
  "\<exists>s b. train_model demo_upd (\<lambda>e xs. xs) demo_auc demo_train 2 4 0 0 = Inr s \<and>
         best_auc s = 7/10 \<and> best_epoch s = 4 \<and> best_model s = Some b \<and> b \<noteq> model s"
proof -
  have h: "demo_train \<noteq> []" "(0::int) < 2" "(1::int) \<le> 4" "\<forall>e \<in> {1..4}. 0 \<le> demo_auc e"
    by (simp_all add: demo_train_def demo_auc_def)
  from selector_keeps_latest_best[OF h, of demo_upd "\<lambda>e xs. xs" 0 0]
  obtain s b where s: "train_model demo_upd (\<lambda>e xs. xs) demo_auc demo_train 2 4 0 0 = Inr s"
    and m: "best_auc s = Max (demo_auc ` {1..4})"
    and e: "best_epoch s \<in> {1..4}" "demo_auc (best_epoch s) = best_auc s" 
    and l: "\<forall>e \<in> {1..4}. demo_auc e = best_auc s \<longrightarrow> e \<le> best_epoch s"
    and b: "best_model s = Some b" "b \<noteq> model s"
    by blast
  have "{1..4::int} = {1, 2, 3, 4}" by auto
  then have "Max (demo_auc ` {1..4}) = 7/10" by (simp add: demo_auc_def)
  with m have a: "best_auc s = 7/10" by simp
  have "demo_auc 4 = best_auc s" by (simp add: a demo_auc_def)
  with l have "4 \<le> best_epoch s" by simp
  with e(1) have "best_epoch s = 4" by simp
  with s a b show ?thesis by blast
qed


theorem checkpoint_written_once_witness:
  "\<exists>s s'. train_model demo_upd (\<lambda>e xs. xs) demo_auc demo_train 2 4 0 0 = Inr s \<and>
          length (saved s) = 1 \<and>
          run_upto demo_upd (\<lambda>e xs. xs) demo_auc demo_train 2 4 0 0 3 = Inr s' \<and> saved s' = []"
proof -
  have h: "demo_train \<noteq> []" "(0::int) < 2" "(1::int) \<le> 4" "\<forall>e \<in> {1..4}. 0 \<le> demo_auc e"
    by (simp_all add: demo_train_def demo_auc_def)
  from checkpoint_written_once[OF h, of demo_upd "\<lambda>e xs. xs" 0 0]
  obtain s where s: "train_model demo_upd (\<lambda>e xs. xs) demo_auc demo_train 2 4 0 0 = Inr s"
    and l: "length (saved s) = 1"
    and e: "\<forall>n. 0 \<le> n \<and> n < 4 \<longrightarrow>
              (\<exists>s'. run_upto demo_upd (\<lambda>e xs. xs) demo_auc demo_train 2 4 0 0 n = Inr s' \<and> saved s' = [])"
    by auto
  from e have "\<exists>s'. run_upto demo_upd (\<lambda>e xs. xs) demo_auc demo_train 2 4 0 0 3 = Inr s' \<and> saved s' = []"
    by simp
  with s l show ?thesis by blast
qed

section \<open>Batches: lemmas\<close>

lemma batches_length_le:
  "b \<in> set (batches bs dl xs) \<Longrightarrow> b \<noteq> [] \<and> length b \<le> bs"
proof (induction bs dl xs rule: batches.induct)
  case (1 bs dl xs)
  show ?case
  proof (cases "bs = 0 \<or> xs = [] \<or> length xs < bs")
    case True
    with "1.prems" show ?thesis by (subst (asm) batches.simps) (auto split: if_splits)
  next
    case False
    with "1.prems" have "b = take bs xs \<or> b \<in> set (batches bs dl (drop bs xs))"
      by (subst (asm) batches.simps) auto
    with False "1.IH" show ?thesis by auto
  qed
qed

lemma batches_concat_keep:
  "0 < bs \<Longrightarrow> concat (batches bs False xs) = xs"
proof (induction bs False xs rule: batches.induct)
  case (1 bs xs)
  show ?case
  proof (cases "xs = [] \<or> length xs < bs")
    case True
    with "1.prems" show ?thesis by (subst batches.simps) auto
  next
    case False
    with "1.prems" "1.hyps" have "concat (batches bs False (drop bs xs)) = drop bs xs" by simp
    with False "1.prems" show ?thesis by (subst batches.simps) simp
  qed
qed

lemma batches_concat_drop:
  "0 < bs \<Longrightarrow> concat (batches bs True xs) = take (bs * (length xs div bs)) xs"
proof (induction bs True xs rule: batches.induct)
  case (1 bs xs)
  show ?case
  proof (cases "xs = [] \<or> length xs < bs")
    case True
    with "1.prems" show ?thesis by (subst batches.simps) auto
  next
    case False
    then have ge: "bs \<le> length xs" by simp
    with "1.prems" "1.hyps" False
    have ih: "concat (batches bs True (drop bs xs)) = take (bs * ((length xs - bs) div bs)) (drop bs xs)"
      by simp
    have d: "length xs div bs = Suc ((length xs - bs) div bs)"
      using "1.prems" ge by (rule le_div_geq)
    have "take (bs * (length xs div bs)) xs = take bs xs @ take (bs * ((length xs - bs) div bs)) (drop bs xs)"
      unfolding d by (simp add: take_add)
    with False "1.prems" ih show ?thesis by (subst batches.simps) simp
  qed
qed

lemma batches_count_drop:
  "0 < bs \<Longrightarrow> length (batches bs True xs) = length xs div bs"
proof (induction bs True xs rule: batches.induct)
  case (1 bs xs)
  show ?case
  proof (cases "xs = [] \<or> length xs < bs")
    case True
    with "1.prems" show ?thesis by (subst batches.simps) auto
  next
    case False
    then have ge: "bs \<le> length xs" by simp
    with "1.prems" "1.hyps" False
    have ih: "length (batches bs True (drop bs xs)) = (length xs - bs) div bs"
      by simp
    have d: "length xs div bs = Suc ((length xs - bs) div bs)"
      using "1.prems" ge by (rule le_div_geq)
    from False "1.prems" ih show ?thesis unfolding d by (subst batches.simps) simp
  qed
qed

lemma batches_keep_eq:
  "0 < bs \<Longrightarrow>
   batches bs False xs =
   batches bs True xs @
   (if length xs mod bs = 0 then [] else [drop (bs * (length xs div bs)) xs])"
proof (induction bs False xs rule: batches.induct)
  case (1 bs xs)
  show ?case
  proof (cases "xs = [] \<or> length xs < bs")
    case True
    with "1.prems" show ?thesis
      by (subst batches.simps, subst (2) batches.simps) auto
  next
    case False
    then have ge: "bs \<le> length xs" by simp
    have d: "length xs div bs = Suc ((length xs - bs) div bs)"
      using "1.prems" ge by (rule le_div_geq)
    have m: "(length xs - bs) mod bs = length xs mod bs"
      using ge by (simp add: le_mod_geq)
    have dd: "bs * ((length xs - bs) div bs) + bs = bs * (length xs div bs)"
      unfolding d by simp
    from "1.prems" "1.hyps" False
    have "batches bs False (drop bs xs) =
          batches bs True (drop bs xs) @
          (if length (drop bs xs) mod bs = 0 then []
           else [drop (bs * (length (drop bs xs) div bs)) (drop bs xs)])"
      by simp
    then have ih: "batches bs False (drop bs xs) =
          batches bs True (drop bs xs) @
          (if length xs mod bs = 0 then [] else [drop (bs * (length xs div bs)) xs])"
      by (simp add: m dd)
    have a: "batches bs False xs = take bs xs # batches bs False (drop bs xs)"
      using False "1.prems" by (subst batches.simps) simp
    have b: "batches bs True xs = take bs xs # batches bs True (drop bs xs)"
      using False "1.prems" by (subst batches.simps) simp
    show ?thesis unfolding a b ih by simp
  qed
qed


text \<open>
  C10. With a positive batch size, every batch of the training loader holds exactly
  \<open>batch_size\<close> examples: the loader yields \<open>length x_train div batch_size\<close> batches,
  which together are the first examples of the epoch's (shuffled) order, so the
  examples past the last full batch are not processed in that epoch; the reshape of the
  labels to \<open>(batch_size, 1)\<close> succeeds on every training batch and the training loop
  over them does not raise. The validation loader yields all examples in order: the same
  full batches, followed by one smaller batch when the number of examples is not a
  multiple of \<open>batch_size\<close>.
\<close>

theorem training_batches_full_validation_keeps_all:
  assumes "0 < batch_size"
  shows "\<exists>tb vb. train_dl x_train batch_size = Inr tb \<and> valid_dl x_valid batch_size = Inr vb \<and>
           (\<forall>b \<in> set tb. int (length b) = batch_size \<and>
                          reshape batch_size (map label b) = Inr (map (\<lambda>l. [l]) (map label b))) \<and>
           (\<exists>s'. train_loop wd upd batch_size tb s = Inr s') \<and>
           length tb = length x_train div nat batch_size \<and>
           concat tb = take (nat batch_size * (length x_train div nat batch_size)) x_train \<and>
           concat vb = x_valid \<and>
           (\<forall>b \<in> set vb. b \<noteq> [] \<and> int (length b) \<le> batch_size) \<and>
           vb = batches (nat batch_size) True x_valid @
                (if length x_valid mod nat batch_size = 0 then []
                 else [drop (nat batch_size * (length x_valid div nat batch_size)) x_valid])"
proof -
  define bs where "bs = nat batch_size"
  have bs: "0 < bs" "int bs = batch_size" using assms by (simp_all add: bs_def)
  define tb where "tb = batches bs True x_train"
  define vb where "vb = batches bs False x_valid"
  have t: "train_dl x_train batch_size = Inr tb"
    using assms by (simp add: train_dl_def DataLoader_def tb_def bs_def)
  have v: "valid_dl x_valid batch_size = Inr vb"
    using assms by (simp add: valid_dl_def DataLoader_def vb_def bs_def)
  have full: "\<forall>b \<in> set tb. int (length b) = batch_size"
    unfolding tb_def using bs(2) by (auto dest: batches_drop_last_length)
  then have 1: "\<forall>b \<in> set tb. int (length b) = batch_size \<and>
                          reshape batch_size (map label b) = Inr (map (\<lambda>l. [l]) (map label b))"
    by (simp add: reshape_def)
  have 2: "\<exists>s'. train_loop wd upd batch_size tb s = Inr s'"
    using full by (rule train_loop_ok)
  have 3: "length tb = length x_train div bs"
    unfolding tb_def using bs(1) by (rule batches_count_drop)
  have 4: "concat tb = take (bs * (length x_train div bs)) x_train"
    unfolding tb_def using bs(1) by (rule batches_concat_drop)
  have 5: "concat vb = x_valid"
    unfolding vb_def using bs(1) by (rule batches_concat_keep)
  have 6: "\<forall>b \<in> set vb. b \<noteq> [] \<and> int (length b) \<le> batch_size"
    unfolding vb_def using batches_length_le[of _ bs False x_valid] bs(2) by auto
  have 7: "vb = batches bs True x_valid @
                (if length x_valid mod bs = 0 then []
                 else [drop (bs * (length x_valid div bs)) x_valid])"
    unfolding vb_def using bs(1) by (rule batches_keep_eq)
  from t v 1 2 3 4 5 6 7 show ?thesis unfolding bs_def by (intro exI[of _ tb] exI[of _ vb] conjI)
qed

theorem training_batches_full_validation_keeps_all_witness:
  "\<exists>tb vb. train_dl demo_train 2 = Inr tb \<and> valid_dl demo_train 2 = Inr vb \<and>
          length tb = 1 \<and> concat tb = take 2 demo_train \<and> length vb = 2 \<and> concat vb = demo_train"
proof -
  have h: "(0::int) < 2" by simp
  from training_batches_full_validation_keeps_all[OF h, of demo_train demo_train]
  obtain tb vb where t: "train_dl demo_train 2 = Inr tb" and v: "valid_dl demo_train 2 = Inr vb"
    and l: "length tb = length demo_train div nat 2"
    and c: "concat tb = take (nat 2 * (length demo_train div nat 2)) demo_train"
    and d: "concat vb = demo_train"
    and e: "vb = batches (nat 2) True demo_train @
                (if length demo_train mod nat 2 = 0 then []
                 else [drop (nat 2 * (length demo_train div nat 2)) demo_train])"
    by blast
  have n: "length demo_train = 3" by (simp add: demo_train_def)
  have "length (batches (nat 2) True demo_train) = 1"
    by (simp add: batches_count_drop n)
  with e have "length vb = 2" by (simp add: n)
  moreover have "length tb = 1" "concat tb = take 2 demo_train" using l c by (simp_all add: n)
  ultimately show ?thesis using t v d by blast
qed

section \<open>Class weights and the order of the calls\<close>

lemma run_epoch_ops:
  assumes "run_epoch wd upd shuffle auc x bsz N e s = Inr s'"
  shows "ops s' = ops s @ concat (map (\<lambda>_. step_ops wd) (batches (nat bsz) True (shuffle e x))) @
                  (if best_auc s \<le> auc e then [DeepCopy] else []) @
                  (if e mod N = 0 then [TorchSave] else []) @ [ToCsv]"
proof -
  from assms obtain s1 s4 where
    s1: "train_loop wd upd bsz (batches (nat bsz) True (shuffle e x)) s = Inr s1" and
    s4: "(if e mod N = 0
          then torch_save (select_best e (auc e) (s1\<lparr>val_auc_all_epochs := val_auc_all_epochs s1 @ [auc e]\<rparr>))
          else Inr (select_best e (auc e) (s1\<lparr>val_auc_all_epochs := val_auc_all_epochs s1 @ [auc e]\<rparr>))) = Inr s4" and
    s': "s' = s4\<lparr>csv_rows := csv_rows s4 @ [length (val_auc_all_epochs s4)], ops := ops s4 @ [ToCsv]\<rparr>"
    by (rule run_epoch_split)
  show ?thesis
    by (simp add: s' maybe_save_fields[OF s4] select_best_fields train_loop_fields[OF s1])
qed

lemma run_ops_inv:
  assumes "run_epochs wd upd shuffle auc x bsz N [1..int n] (init_state p0 o0) = Inr s"
  shows "\<exists>rest. ops s = ComputeClassWeight # rest \<and> ComputeClassWeight \<notin> set rest \<and>
                (\<forall>w. GetLossWeight w \<in> set rest \<longrightarrow> w = wd)"
  using assms
proof (induction n arbitrary: s)
  case 0
  then have "s = init_state p0 o0" by simp
  then show ?case by (simp add: init_state_def)
next
  case (Suc n)
  from Suc.prems obtain s0 where
    s0: "run_epochs wd upd shuffle auc x bsz N [1..int n] (init_state p0 o0) = Inr s0" and
    st: "run_epoch wd upd shuffle auc x bsz N (int n + 1) s0 = Inr s"
    by (rule run_epochs_Suc_Inr)
  from Suc.IH[OF s0] obtain rest where
    r: "ops s0 = ComputeClassWeight # rest" "ComputeClassWeight \<notin> set rest"
       "\<forall>w. GetLossWeight w \<in> set rest \<longrightarrow> w = wd" by blast
  define new where "new = concat (map (\<lambda>_. step_ops wd) (batches (nat bsz) True (shuffle (int n + 1) x))) @
                  (if best_auc s0 \<le> auc (int n + 1) then [DeepCopy] else []) @
                  (if (int n + 1) mod N = 0 then [TorchSave] else []) @ [ToCsv]"
  have o: "ops s = ComputeClassWeight # (rest @ new)"
    unfolding run_epoch_ops[OF st] r(1) new_def by simp
  have "ComputeClassWeight \<notin> set new" "\<forall>w. GetLossWeight w \<in> set new \<longrightarrow> w = wd"
    by (auto simp: new_def step_ops_def)
  with r(2,3) o show ?case by auto
qed


lemma sort_remdups_binary:
  assumes "set y = {0, 1::real}"
  shows "sort (remdups y) = [0, 1]"
proof -
  have "sort (remdups y) = sorted_list_of_set (set y)"
    by (simp add: sorted_list_of_set_sort_remdups)
  also have "\<dots> = [0, 1]" unfolding assms by simp
  finally show ?thesis .
qed

lemma compute_class_weight_binary:
  assumes "set y = {0, 1::real}"
  shows "compute_class_weight y =
         [real (length y) / (2 * real (count_list y 0)), real (length y) / (2 * real (count_list y 1))]"
  by (simp add: compute_class_weight_def sort_remdups_binary[OF assms])

lemma class_weights_binary:
  assumes "set y = {0, 1::real}"
  shows "class_weights y =
         Inr \<lparr>clean = min (real (length y) / (2 * real (count_list y 0)))
                          (real (length y) / (2 * real (count_list y 1))),
              defect = max (real (length y) / (2 * real (count_list y 0)))
                           (real (length y) / (2 * real (count_list y 1)))\<rparr>"
  by (simp add: class_weights_def compute_class_weight_binary[OF assms] Let_def min.commute max.commute)

lemma count_list_pos: "a \<in> set y \<Longrightarrow> 0 < count_list y a"
  by (induction y) auto

lemma balanced_weight_order:
  assumes "set y = {0, 1::real}" and "count_list y 1 \<le> count_list y 0"
  shows "real (length y) / (2 * real (count_list y 0)) \<le> real (length y) / (2 * real (count_list y 1))"
proof -
  have "0 < count_list y 1" using assms(1) by (intro count_list_pos) simp
  with assms(2) show ?thesis by (simp add: frac_le)
qed

text \<open>
  C4, as the code has it. For training labels in which both classes occur, the two
  balanced weights are \<open>total / (2 * count_c)\<close>, one per class; the dictionary gives
  \<open>clean\<close> the smaller and \<open>defect\<close> the larger of the two, and examples get their
  weight by that dictionary. When the defective files are not more numerous than the
  clean ones, each class thus has its own balanced weight and the minority class has the
  larger one. The weights are computed once, before the first epoch, and every training
  step of the run uses that same dictionary.
\<close>

theorem class_weights_min_max:
  assumes "set (map label x_train_vec) = {0, 1}" and "0 < batch_size" and "1 \<le> num_epochs"
    and "\<forall>e \<in> {1..num_epochs}. 0 \<le> auc e"
  shows "\<exists>w0 w1 wd.
           w0 = real (length x_train_vec) / (2 * real (count_list (map label x_train_vec) 0)) \<and>
           w1 = real (length x_train_vec) / (2 * real (count_list (map label x_train_vec) 1)) \<and>
           compute_class_weight (map label x_train_vec) = [w0, w1] \<and>
           class_weights (map label x_train_vec) = Inr wd \<and>
           clean wd = min w0 w1 \<and> defect wd = max w0 w1 \<and>
           get_loss_weight [0, 1] wd = [min w0 w1, max w0 w1] \<and>
           (count_list (map label x_train_vec) 1 \<le> count_list (map label x_train_vec) 0 \<longrightarrow>
              clean wd = w0 \<and> defect wd = w1 \<and> clean wd \<le> defect wd) \<and>
           (\<exists>s rest. train_model upd shuffle auc x_train_vec batch_size num_epochs p0 opt0 = Inr s \<and>
              ops s = ComputeClassWeight # rest \<and> ComputeClassWeight \<notin> set rest \<and>
              (\<forall>w. GetLossWeight w \<in> set rest \<longrightarrow> w = wd))"
proof -
  define y where "y = map label x_train_vec"
  define w0 where "w0 = real (length x_train_vec) / (2 * real (count_list y 0))"
  define w1 where "w1 = real (length x_train_vec) / (2 * real (count_list y 1))"
  define wd where "wd = \<lparr>clean = min w0 w1, defect = max w0 w1\<rparr>"
  have sy: "set y = {0, 1}" using assms(1) by (simp add: y_def)
  have ly: "length y = length x_train_vec" by (simp add: y_def)
  have c: "compute_class_weight y = [w0, w1]"
    using compute_class_weight_binary[OF sy] by (simp add: w0_def w1_def ly)
  have cw: "class_weights y = Inr wd"
    using class_weights_binary[OF sy] by (simp add: wd_def w0_def w1_def ly)
  have g: "get_loss_weight [0, 1] wd = [min w0 w1, max w0 w1]"
    by (simp add: get_loss_weight_def wd_def)
  have m: "clean wd = w0 \<and> defect wd = w1 \<and> clean wd \<le> defect wd"
    if "count_list y 1 \<le> count_list y 0"
    using balanced_weight_order[OF sy that] by (simp add: wd_def w0_def w1_def ly)
  have ne: "x_train_vec \<noteq> []" using assms(1) by auto
  have n0: "0 \<le> num_epochs" using assms(3) by simp
  from run_upto_ok[where upd=upd and shuffle=shuffle and ?p0.0=p0 and ?o0.0=opt0,
      OF ne assms(2) n0 order_refl assms(4)]
  obtain s where s: "run_upto upd shuffle auc x_train_vec batch_size num_epochs p0 opt0 num_epochs = Inr s"
    by blast
  from run_upto_Inr[OF s n0] obtain wd' where
    w': "class_weights (map label x_train_vec) = Inr wd'" and
    r: "run_epochs wd' upd shuffle auc x_train_vec batch_size num_epochs [1..int (nat num_epochs)]
          (init_state p0 opt0) = Inr s" by blast
  from w' cw have "wd' = wd" by (simp add: y_def)
  with run_ops_inv[OF r] obtain rest where
    "ops s = ComputeClassWeight # rest" "ComputeClassWeight \<notin> set rest"
    "\<forall>w. GetLossWeight w \<in> set rest \<longrightarrow> w = wd" by blast
  with s have run: "\<exists>s rest. train_model upd shuffle auc x_train_vec batch_size num_epochs p0 opt0 = Inr s \<and>
              ops s = ComputeClassWeight # rest \<and> ComputeClassWeight \<notin> set rest \<and>
              (\<forall>w. GetLossWeight w \<in> set rest \<longrightarrow> w = wd)"
    unfolding train_model_def by blast
  have "clean wd = min w0 w1" "defect wd = max w0 w1" by (simp_all add: wd_def)
  with c cw g m run show ?thesis
    unfolding y_def[symmetric] w0_def[symmetric] w1_def[symmetric]
    by (intro exI[of _ w0] exI[of _ w1] exI[of _ wd] conjI impI) (simp_all add: w0_def w1_def)
qed

theorem class_weights_min_max_counterexample:
  "class_weights [0, 1, 1] = Inr \<lparr>clean = 3 / 4, defect = 3 / 2\<rparr> \<and>
   get_loss_weight [0, 1, 1] \<lparr>clean = 3 / 4, defect = 3 / 2\<rparr> = [3 / 4, 3 / 2, 3 / 2] \<and>
   real (length [0, 1, 1 :: real]) / (2 * real (count_list [0, 1, 1 :: real] 0)) = 3 / 2 \<and>
   count_list [0, 1, 1 :: real] 0 < count_list [0, 1, 1 :: real] 1"
  by (simp add: class_weights_def compute_class_weight_def get_loss_weight_def)


theorem class_weights_min_max_witness:
  "\<exists>wd s. class_weights (map label demo_train) = Inr wd \<and> clean wd = 3 / 4 \<and> defect wd = 3 / 2 \<and>
          train_model demo_upd (\<lambda>e xs. xs) demo_auc demo_train 2 4 0 0 = Inr s \<and>
          hd (ops s) = ComputeClassWeight"
proof -
  have h: "set (map label demo_train) = {0, 1}" "(0::int) < 2" "(1::int) \<le> 4"
    "\<forall>e \<in> {1..4}. 0 \<le> demo_auc e"
    by (auto simp: demo_train_def demo_auc_def)
  from class_weights_min_max[OF h, of demo_upd "\<lambda>e xs. xs" 0 0]
  obtain w0 w1 wd s rest where
    w: "w0 = real (length demo_train) / (2 * real (count_list (map label demo_train) 0))"
       "w1 = real (length demo_train) / (2 * real (count_list (map label demo_train) 1))" and
    c: "class_weights (map label demo_train) = Inr wd" "clean wd = min w0 w1" "defect wd = max w0 w1" and
    s: "train_model demo_upd (\<lambda>e xs. xs) demo_auc demo_train 2 4 0 0 = Inr s"
       "ops s = ComputeClassWeight # rest"
    by blast
  have "w0 = 3 / 4" "w1 = 3 / 2" unfolding w by (simp_all add: demo_train_def)
  with c have "clean wd = 3 / 4" "defect wd = 3 / 2" by simp_all
  with c(1) s show ?thesis by (intro exI[of _ wd] exI[of _ s]) simp
qed

text \<open>
  C5. One training iteration on a batch of the right size, from the initial state: the
  calls happen in the order backward, optimizer step, zero_grad, clip_grad_norm_, so the
  optimizer has already consumed the gradients, and they have been zeroed, when the
  clipping runs.
\<close>

theorem clipping_runs_after_optimizer_step:
  "map_sum id ops (train_step \<lparr>clean = 3 / 4, defect = 3 / 2\<rparr> demo_upd 2 (take 2 demo_train)
                     (init_state 0 0)) =
   Inr [ComputeClassWeight, GetLossWeight \<lparr>clean = 3 / 4, defect = 3 / 2\<rparr>,
        Backward, OptimizerStep, ZeroGrad, ClipGradNorm, EmptyCache]"
  by (simp add: train_step_def reshape_def demo_train_def demo_upd_def init_state_def)

section \<open>The loss of one batch: lemmas\<close>

lemma line_losses_count:
  "line_losses zs = Inr (cnt, losses) \<Longrightarrow> cnt \<le> length zs \<and> length losses = cnt"
proof (induction zs arbitrary: cnt losses)
  case Nil
  then show ?case by simp
next
  case (Cons z zs)
  obtain att ll fl where z: "z = (att, ll, fl)" by (cases z) auto
  show ?case
  proof (cases "skipped ll fl")
    case True
    with Cons.prems z have "line_losses zs = Inr (cnt, losses)" by simp
    from Cons.IH[OF this] show ?thesis by simp
  next
    case False
    with Cons.prems z obtain l c ls where
      r: "line_losses zs = Inr (c, ls)" and e: "cnt = c + 1" "losses = l # ls"
      by (auto simp: ebind_Inr_iff)
    from Cons.IH[OF r] e show ?thesis by simp
  qed
qed

lemma convex_between:
  fixes f l k :: real
  assumes "0 \<le> k" and "k \<le> 1"
  shows "min f l \<le> (1 - k) * f + k * l" and "(1 - k) * f + k * l \<le> max f l"
proof -
  have "(1 - k) * min f l + k * min f l \<le> (1 - k) * f + k * l"
    using assms by (intro add_mono mult_left_mono) auto
  then show "min f l \<le> (1 - k) * f + k * l" by (simp add: algebra_simps)
  have "(1 - k) * f + k * l \<le> (1 - k) * max f l + k * max f l"
    using assms by (intro add_mono mult_left_mono) auto
  then show "(1 - k) * f + k * l \<le> max f l" by (simp add: algebra_simps)
qed



lemma jsd_empty: "jsd [] [] eps = Inr (Fin 0)"
  by (simp add: jsd_def softmax_def ew_def kld_def tsum_def argsort_desc_def sort_desc_def argsort_def)

lemma example_line_loss_short:
  assumes "length ll < 5"
  shows "example_line_loss att ll = Inr (Fin 0)"
  using assms by (simp add: example_line_loss_def Let_def jsd_empty split: prod.splits)

lemma no_positive_skipped:
  assumes "\<forall>x \<in> set ll. x \<le> 0"
  shows "skipped ll fl"
proof -
  have "\<not> list_ex (\<lambda>x. x = 1) ll"
    using assms by (auto simp: list_ex_iff)
  then show ?thesis by (simp add: skipped_def)
qed

lemma line_losses_append:
  "line_losses (xs @ ys) =
   ebind (line_losses xs) (\<lambda>(c1, l1). ebind (line_losses ys) (\<lambda>(c2, l2). Inr (c1 + c2, l1 @ l2)))"
proof (induction xs)
  case Nil
  show ?case by (cases "line_losses ys") (auto simp: ebind_def)
next
  case (Cons x xs)
  obtain att ll fl where x: "x = (att, ll, fl)" by (cases x) auto
  show ?case
  proof (cases "skipped ll fl")
    case True
    then show ?thesis using Cons.IH by (simp add: x)
  next
    case False
    show ?thesis
    proof (cases "example_line_loss att ll")
      case (Inl e)
      with False show ?thesis by (simp add: x)
    next
      case (Inr l)
      show ?thesis
      proof (cases "line_losses xs")
        case (Inl e)
        with False Inr show ?thesis by (simp add: x Cons.IH)
      next
        case r: (Inr p)
        obtain c1 l1 where p: "p = (c1, l1)" by (cases p) auto
        show ?thesis
          by (cases "line_losses ys") (auto simp: x False Inr r p Cons.IH)
      qed
    qed
  qed
qed

lemma line_losses_skip:
  assumes "skipped ll fl"
  shows "line_losses (xs @ (att, ll, fl) # ys) = line_losses (xs @ ys)"
  unfolding line_losses_append[of xs "(att, ll, fl) # ys"] line_losses_append[of xs ys]
  using assms by simp

lemma line_losses_all_skipped:
  assumes "\<forall>(att, ll, fl) \<in> set zs. skipped ll fl"
  shows "line_losses zs = Inr (0, [])"
  using assms by (induction zs) auto

lemma minmax_row_ok: "row \<noteq> [] \<Longrightarrow> \<exists>r. minmax_row row = Inr r \<and> length r = length row"
  by (cases row) (simp_all add: minmax_row_def)

lemma minmax_ok:
  assumes "\<forall>row \<in> set rows. row \<noteq> []"
  shows "\<exists>atts. minmax rows = Inr atts \<and> length atts = length rows"
  using assms
proof (induction rows)
  case Nil
  show ?case by simp
next
  case (Cons row rows)
  then obtain atts where a: "minmax rows = Inr atts" "length atts = length rows" by auto
  from Cons.prems minmax_row_ok[of row] obtain r where "minmax_row row = Inr r" by auto
  with a show ?case by simp
qed

lemma combined_loss_zero: "combined_loss 0 file_loss (Fin 0) = file_loss"
  by (cases file_loss) (simp_all add: combined_loss_def)



text \<open>
  C9. An example whose file label is 0, or whose line labels have no positive entry, is
  skipped: the count and the losses of the batch are those of the batch without it. When
  every example of a batch is skipped, the count is 0, there are no losses, the
  aggregate line loss is exactly 0 and the batch loss is the file loss. An example that
  is not skipped and has fewer than 5 lines has an empty top-k selection; its loss is
  the finite value 0, whatever its attention row holds, and nothing is raised.
\<close>

theorem skipped_examples_and_short_files:
  "(fl = 0 \<or> (\<forall>x \<in> set ll. x \<le> 0) \<longrightarrow>
      line_losses (xs @ (att, ll, fl) # ys) = line_losses (xs @ ys)) \<and>
   (labels \<noteq> [] \<and> (\<forall>row \<in> set line_atts. row \<noteq> []) \<and>
    (\<forall>(l, f) \<in> set (zip line_labels labels). skipped l f) \<longrightarrow>
      (\<exists>atts. minmax line_atts = Inr atts \<and>
         line_losses (zip atts (zip line_labels labels)) = Inr (0, [])) \<and>
      aggregate_line_loss [] = Fin 0 \<and>
      batch_loss k line_atts line_labels labels file_loss = Inr file_loss) \<and>
   (\<not> skipped ll' fl' \<and> length ll' < 5 \<longrightarrow>
      example_line_loss att' ll' = Inr (Fin 0) \<and>
      line_losses [(att', ll', fl')] = Inr (1, [Fin 0]))"
proof (intro conjI impI)
  assume "fl = 0 \<or> (\<forall>x \<in> set ll. x \<le> 0)"
  then have "skipped ll fl" using no_positive_skipped[of ll fl] by (auto simp: skipped_def)
  then show "line_losses (xs @ (att, ll, fl) # ys) = line_losses (xs @ ys)"
    by (rule line_losses_skip)
next
  show "aggregate_line_loss [] = Fin 0" by (simp add: aggregate_line_loss_def)
next
  assume a: "labels \<noteq> [] \<and> (\<forall>row \<in> set line_atts. row \<noteq> []) \<and>
    (\<forall>(l, f) \<in> set (zip line_labels labels). skipped l f)"
  then obtain atts where m: "minmax line_atts = Inr atts" using minmax_ok[of line_atts] by blast
  have "\<forall>(a, l, f) \<in> set (zip atts (zip line_labels labels)). skipped l f"
    using a by (auto dest: set_zip_rightD)
  then have z: "line_losses (zip atts (zip line_labels labels)) = Inr (0, [])"
    by (rule line_losses_all_skipped)
  with m show "\<exists>atts. minmax line_atts = Inr atts \<and>
         line_losses (zip atts (zip line_labels labels)) = Inr (0, [])" by blast
  show "batch_loss k line_atts line_labels labels file_loss = Inr file_loss"
    using a by (simp add: batch_loss_def m z k_eff_def aggregate_line_loss_def combined_loss_zero)
next
  assume a: "\<not> skipped ll' fl' \<and> length ll' < 5"
  then show e: "example_line_loss att' ll' = Inr (Fin 0)" by (simp add: example_line_loss_short)
  with a show "line_losses [(att', ll', fl')] = Inr (1, [Fin 0])" by simp
qed

theorem skipped_examples_and_short_files_witness:
  "line_losses ([([Fin 0, Fin 1], [1, 0], 1)] @ ([Fin 0, Fin 1], [1, 0], 0) # []) =
     line_losses ([([Fin 0, Fin 1], [1, 0], 1)] @ []) \<and>
   batch_loss (1 / 5) [[Fin 0, Fin 1], [Fin 1, Fin 1]] [[1, 0], [0, 0]] [0, 1] (Fin (1 / 2)) =
     Inr (Fin (1 / 2)) \<and>
   example_line_loss [NaN, NaN, NaN, NaN] [0, 1, 0, 0] = Inr (Fin 0) \<and>
   line_losses [([NaN, NaN, NaN, NaN], [0, 1, 0, 0], 1)] = Inr (1, [Fin 0])"
proof -
  have h1: "(0::real) = 0 \<or> (\<forall>x \<in> set [1, 0 :: real]. x \<le> 0)" by simp
  have h2: "[0, 1 :: real] \<noteq> [] \<and> (\<forall>row \<in> set [[Fin 0, Fin 1], [Fin 1, Fin 1]]. row \<noteq> []) \<and>
    (\<forall>(l, f) \<in> set (zip [[1, 0], [0, 0]] [0, 1 :: real]). skipped l f)"
    by (simp add: skipped_def)
  have h3: "\<not> skipped [0, 1, 0, 0] 1 \<and> length [0, 1, 0, 0 :: real] < 5"
    by (simp add: skipped_def)
  note t = skipped_examples_and_short_files[of 0 "[1, 0]" "[([Fin 0, Fin 1], [1, 0], 1)]"
      "[Fin 0, Fin 1]" "[]" "[0, 1]" "[[Fin 0, Fin 1], [Fin 1, Fin 1]]" "[[1, 0], [0, 0]]"
      "1 / 5" "Fin (1 / 2)" "[0, 1, 0, 0]" 1 "[NaN, NaN, NaN, NaN]"]
  from t h1 have 1: "line_losses ([([Fin 0, Fin 1], [1, 0], 1)] @ ([Fin 0, Fin 1], [1, 0], 0) # []) =
     line_losses ([([Fin 0, Fin 1], [1, 0], 1)] @ [])" by blast
  from t h2 have 2: "batch_loss (1 / 5) [[Fin 0, Fin 1], [Fin 1, Fin 1]] [[1, 0], [0, 0]] [0, 1] (Fin (1 / 2)) =
     Inr (Fin (1 / 2))" by blast
  from t h3 have 3: "example_line_loss [NaN, NaN, NaN, NaN] [0, 1, 0, 0] = Inr (Fin 0) \<and>
     line_losses [([NaN, NaN, NaN, NaN], [0, 1, 0, 0], 1)] = Inr (1, [Fin 0])" by blast
  from 1 2 3 show ?thesis by blast
qed

lemma fold_fmin2_constant: "(fmin2 (Fin c) ^^ n) (Fin c) = Fin c"
  by (induction n) (simp_all add: fmin2_def)

lemma fold_fmax2_constant: "(fmax2 (Fin c) ^^ n) (Fin c) = Fin c"
  by (induction n) (simp_all add: fmax2_def)

lemma minmax_row_constant:
  assumes "0 < n"
  shows "minmax_row (replicate n (Fin c)) = Inr (replicate n NaN)"
proof -
  from assms obtain m where n: "n = Suc m" by (cases n) auto
  have "tmin (replicate n (Fin c)) = Inr (Fin c)" "tmax (replicate n (Fin c)) = Inr (Fin c)"
    by (simp_all add: n fold_fmin2_constant fold_fmax2_constant)
  then show ?thesis by (simp add: minmax_row_def fsub_def)
qed

lemma minmax_constant_row:
  "minmax_row [Fin c, Fin c, Fin c, Fin c, Fin c] = Inr [NaN, NaN, NaN, NaN, NaN]"
  by (simp add: minmax_row_def fmin2_def fmax2_def fsub_def)

lemma sort_desc_nan: "sort_desc [NaN, NaN, NaN, NaN, NaN] = ([NaN, NaN, NaN, NaN, NaN], [0, 1, 2, 3, 4])"
  by (simp add: sort_desc_def upt_rec)

lemma jsd_nan: "jsd [NaN] [Fin 1] eps = Inr NaN"
  by (simp add: jsd_def softmax_def tsum_def ew_def kld_def argsort_desc_def sort_desc_def
      argsort_def discount_of_rank_def)

text \<open>
  C1. A row of equal finite scores, of any length, is normalized to \<open>NaN\<close>
  throughout (\<open>minmax_row_constant\<close>). Here, a batch of one defective file of five
  lines whose raw attention scores are all equal: min-max normalization divides 0 by 0
  on every line, the normalized row is \<open>NaN\<close> throughout, and so are the line loss
  and the loss of the batch.
\<close>

theorem constant_attention_gives_nan_loss:
  "minmax [[Fin (1 / 5), Fin (1 / 5), Fin (1 / 5), Fin (1 / 5), Fin (1 / 5)]] =
     Inr [[NaN, NaN, NaN, NaN, NaN]] \<and>
   example_line_loss [NaN, NaN, NaN, NaN, NaN] [1, 0, 0, 0, 0] = Inr NaN \<and>
   batch_loss (1 / 5) [[Fin (1 / 5), Fin (1 / 5), Fin (1 / 5), Fin (1 / 5), Fin (1 / 5)]]
     [[1, 0, 0, 0, 0]] [1] (Fin (1 / 2)) = Inr NaN"
proof -
  have m: "minmax [[Fin (1 / 5), Fin (1 / 5), Fin (1 / 5), Fin (1 / 5), Fin (1 / 5)]] =
     Inr [[NaN, NaN, NaN, NaN, NaN]]"
    by (simp add: minmax_constant_row)
  have e: "example_line_loss [NaN, NaN, NaN, NaN, NaN] [1, 0, 0, 0, 0] = Inr NaN"
    by (simp add: example_line_loss_def sort_desc_nan jsd_nan)
  have "batch_loss (1 / 5) [[Fin (1 / 5), Fin (1 / 5), Fin (1 / 5), Fin (1 / 5), Fin (1 / 5)]]
     [[1, 0, 0, 0, 0]] [1] (Fin (1 / 2)) = Inr NaN"
    unfolding batch_loss_def m
    by (simp add: e skipped_def k_eff_def aggregate_line_loss_def tmean_def
        tsum_def combined_loss_def)
  with m e show ?thesis by simp
qed

section \<open>Sorting and ranks: lemmas\<close>

lemma insort_key_cong_order:
  assumes "\<And>y. y \<in> set ys \<Longrightarrow> (f x \<le> f y) = (g x \<le> g y)"
  shows "insort_key f x ys = insort_key g x ys"
  using assms by (induction ys) auto

lemma sort_key_cong_order:
  assumes "\<And>x y. x \<in> set xs \<Longrightarrow> y \<in> set xs \<Longrightarrow> (f x \<le> f y) = (g x \<le> g y)"
  shows "sort_key f xs = sort_key g xs"
  using assms
proof (induction xs)
  case Nil
  show ?case by simp
next
  case (Cons x xs)
  have ih: "sort_key f xs = sort_key g xs" by (rule Cons.IH) (simp add: Cons.prems)
  have "insort_key f x (sort_key g xs) = insort_key g x (sort_key g xs)"
    by (rule insort_key_cong_order) (simp add: Cons.prems)
  then show ?case by (simp add: ih)
qed

lemma insort_key_map_inj:
  "insort_key f (h x) (map h ys) = map h (insort_key (\<lambda>z. f (h z)) x ys)"
  by (induction ys) auto

lemma sort_key_map_list:
  "sort_key f (map h xs) = map h (sort_key (\<lambda>z. f (h z)) xs)"
  by (induction xs) (simp_all add: insort_key_map_inj)

lemma length_order_desc [simp]: "length (order_desc xs) = length xs"
  by (simp add: order_desc_def)

lemma map_snd_zip_upt: "map snd (zip xs [0..<length xs]) = [0..<length xs]"
  by (rule map_snd_zip) simp

lemma map_fst_zip_upt: "map fst (zip xs [0..<length xs]) = xs"
  by (rule map_fst_zip) simp

lemma set_order_desc [simp]: "set (order_desc xs) = {..<length xs}"
proof -
  have "set (order_desc xs) = snd ` set (zip xs [0..<length xs])"
    by (simp add: order_desc_def)
  also have "\<dots> = set (map snd (zip xs [0..<length xs]))" by (simp only: set_map)
  also have "\<dots> = set [0..<length xs]" by (simp only: map_snd_zip_upt)
  also have "\<dots> = {..<length xs}" by (simp add: lessThan_atLeast0)
  finally show ?thesis .
qed

lemma distinct_order_desc [simp]: "distinct (order_desc xs)"
proof -
  have "mset (order_desc xs) = image_mset snd (mset (zip xs [0..<length xs]))"
    by (simp add: order_desc_def)
  also have "\<dots> = mset (map snd (zip xs [0..<length xs]))" by (simp only: mset_map)
  also have "\<dots> = mset [0..<length xs]" by (simp only: map_snd_zip_upt)
  finally have "mset (order_desc xs) = mset [0..<length xs]" .
  then show ?thesis by (metis distinct_upt mset_eq_imp_distinct_iff)
qed

lemma sort_desc_Fin:
  "sort_desc (map Fin xs) =
   (map (\<lambda>i. Fin (xs ! i)) (order_desc xs), order_desc xs)"
proof -
  define zs where "zs = zip xs [0..<length xs]"
  define h :: "real \<times> nat \<Rightarrow> fl \<times> nat" where "h = (\<lambda>p. (Fin (fst p), snd p))"
  have z: "zip (map Fin xs) [0..<length (map Fin xs)] = map h zs"
    by (simp add: zs_def h_def zip_map1 case_prod_unfold)
  have k: "sort_key (\<lambda>z. desc_key (fst (h z))) zs = sort_key (\<lambda>p. - fst p) zs"
    by (rule sort_key_cong_order) (auto simp: h_def)
  define ps where "ps = sort_key (\<lambda>p. - fst p) zs"
  have s: "sort_key (\<lambda>p. desc_key (fst p)) (map h zs) = map h ps"
    unfolding sort_key_map_list k ps_def ..
  have o: "order_desc xs = map snd ps" by (simp add: order_desc_def ps_def zs_def)
  have "fst p = xs ! snd p" if "p \<in> set ps" for p
  proof -
    from that have "p \<in> set zs" by (simp add: ps_def)
    then show ?thesis by (auto simp: zs_def in_set_zip)
  qed
  then have f: "map (\<lambda>p. Fin (fst p)) ps = map (\<lambda>p. Fin (xs ! snd p)) ps" by simp
  show ?thesis
    unfolding sort_desc_def z s Let_def o
    by (simp add: h_def comp_def f)
qed

lemma argsort_desc_Fin: "argsort_desc (map Fin xs) = order_desc xs"
  by (simp add: argsort_desc_def sort_desc_Fin)

lemma order_desc_mono_cong:
  assumes "\<And>x y. x \<in> set xs \<Longrightarrow> y \<in> set xs \<Longrightarrow> (g x \<le> g y) = (x \<le> y)"
  shows "order_desc (map g xs) = order_desc xs"
proof -
  define zs where "zs = zip xs [0..<length xs]"
  define h :: "real \<times> nat \<Rightarrow> real \<times> nat" where "h = (\<lambda>p. (g (fst p), snd p))"
  have z: "zip (map g xs) [0..<length (map g xs)] = map h zs"
    by (simp add: zs_def h_def zip_map1 case_prod_unfold)
  have "sort_key (\<lambda>z. - fst (h z)) zs = sort_key (\<lambda>p. - fst p) zs"
  proof (rule sort_key_cong_order)
    fix p q assume "p \<in> set zs" "q \<in> set zs"
    then have "fst p \<in> set xs" "fst q \<in> set xs"
      unfolding zs_def by (metis prod.collapse set_zip_leftD)+
    from assms[OF this(2,1)] show "(- fst (h p) \<le> - fst (h q)) = (- fst p \<le> - fst q)"
      by (simp add: h_def)
  qed
  then have "sort_key (\<lambda>p. - fst p) (map h zs) = map h (sort_key (\<lambda>p. - fst p) zs)"
    unfolding sort_key_map_list by simp
  then show ?thesis
    unfolding order_desc_def z zs_def[symmetric] by (simp add: h_def comp_def)
qed

lemma argsort_perm:
  assumes "distinct js" and "set js = {..<length js}" and "i < length js"
  shows "argsort js ! i < length js" and "js ! (argsort js ! i) = i"
proof -
  define n where "n = length js"
  define zs where "zs = sort_key fst (zip js [0..<n])"
  have len: "length zs = n" by (simp add: zs_def n_def)
  have "mset (map fst zs) = image_mset fst (mset (zip js [0..<length js]))"
    by (simp add: zs_def n_def)
  also have "\<dots> = mset (map fst (zip js [0..<length js]))" by (simp only: mset_map)
  finally have "mset (map fst zs) = mset js" by (simp only: map_fst_zip_upt)
  then have d: "distinct (map fst zs)" and s: "set (map fst zs) = {..<n}"
    using assms(1,2) by (metis mset_eq_imp_distinct_iff, metis mset_eq_setD n_def)
  have "sorted (map fst zs)" by (simp add: zs_def)
  with d s have "map fst zs = [0..<n]"
    by (intro sorted_distinct_set_unique) (simp_all add: lessThan_atLeast0)
  then have fi: "fst (zs ! i) = i" using assms(3) len
    by (metis n_def nth_map nth_upt add_0)
  have "zs ! i \<in> set (zip js [0..<n])" using assms(3) len by (metis n_def nth_mem set_sort zs_def)
  then have "snd (zs ! i) < n \<and> js ! snd (zs ! i) = fst (zs ! i)"
    by (auto simp: in_set_zip n_def)
  moreover have "argsort js ! i = snd (zs ! i)"
    using assms(3) len by (simp add: argsort_def zs_def n_def)
  ultimately show "argsort js ! i < length js" and "js ! (argsort js ! i) = i"
    using fi by (simp_all add: n_def)
qed

lemma rank_in_nth:
  assumes "distinct js" and "p < length js"
  shows "rank_in js (js ! p) = Suc p"
proof -
  have "takeWhile (\<lambda>j. j \<noteq> js ! p) js = take p js"
  proof (rule takeWhile_eq_take_P_nth)
    fix i assume "i < p" "i < length js"
    with assms show "js ! i \<noteq> js ! p" by (simp add: nth_eq_iff_index_eq)
  qed simp
  then show ?thesis using assms(2) by (simp add: rank_in_def)
qed

lemma argsort_rank:
  assumes "distinct js" and "set js = {..<length js}" and "i < length js"
  shows "argsort js ! i + 1 = rank_in js i"
  using rank_in_nth[OF assms(1) argsort_perm(1)[OF assms]] argsort_perm(2)[OF assms] by simp

lemma length_argsort [simp]: "length (argsort js) = length js"
  by (simp add: argsort_def)

section \<open>From floats to real numbers: lemmas\<close>

lemma tsum_Fin: "tsum (map Fin xs) = Fin (sum_list xs)"
  by (induction xs) (simp_all add: tsum_def)

lemma sum_list_exp_pos: "xs \<noteq> [] \<Longrightarrow> 0 < sum_list (map exp xs)" for xs :: "real list"
proof (induction xs)
  case Nil
  then show ?case by simp
next
  case (Cons x xs)
  have "0 \<le> sum_list (map exp xs)" by (rule sum_list_nonneg) auto
  moreover have "0 < exp x" by simp
  ultimately show ?case by (simp add: add_pos_nonneg)
qed

lemma softmax_Fin: "softmax (map Fin xs) = map Fin (softmax_real xs)"
proof (cases "xs = []")
  case True
  then show ?thesis by (simp add: softmax_def softmax_real_def)
next
  case False
  then have s: "sum_list (map exp xs) \<noteq> 0" using sum_list_exp_pos[of xs] by simp
  have es: "map fexp (map Fin xs) = map Fin (map exp xs)" by simp
  have "softmax (map Fin xs) =
        map (\<lambda>e. fdiv e (Fin (sum_list (map exp xs)))) (map Fin (map exp xs))"
    unfolding softmax_def Let_def es tsum_Fin ..
  also have "\<dots> = map Fin (softmax_real xs)"
    using s by (simp add: softmax_real_def)
  finally show ?thesis .
qed

lemma length_softmax_real [simp]: "length (softmax_real xs) = length xs"
  by (simp add: softmax_real_def)

lemma softmax_real_nth:
  "i < length xs \<Longrightarrow> softmax_real xs ! i = exp (xs ! i) / sum_list (map exp xs)"
  by (simp add: softmax_real_def)

lemma softmax_real_pos: "i < length xs \<Longrightarrow> 0 < softmax_real xs ! i"
  using sum_list_exp_pos[of xs] by (cases "xs = []") (simp_all add: softmax_real_nth)

lemma order_desc_softmax: "order_desc (softmax_real xs) = order_desc xs"
proof (cases "xs = []")
  case True
  then show ?thesis by (simp add: softmax_real_def)
next
  case False
  then have s: "0 < sum_list (map exp xs)" by (rule sum_list_exp_pos)
  then have ns: "\<not> sum_list (map exp xs) < 0" by simp
  show ?thesis
    unfolding softmax_real_def
    by (rule order_desc_mono_cong) (simp add: divide_le_cancel s ns)
qed

lemma ew_same_length:
  assumes "length xs = length ys"
  shows "ew f xs ys = Inr (map (\<lambda>i. f (xs ! i) (ys ! i)) [0..<length xs])"
proof -
  have "map2 f xs ys = map (\<lambda>i. f (xs ! i) (ys ! i)) [0..<length xs]"
    using assms by (intro nth_equalityI) simp_all
  with assms show ?thesis by (simp add: ew_def)
qed

lemma sum_list_upt_sum: "sum_list (map f [0..<k]) = (\<Sum>i<k. f i)" for f :: "nat \<Rightarrow> real"
  by (simp add: interv_sum_list_conv_sum_set_nat lessThan_atLeast0)

lemma kld_Fin:
  assumes "length m = length p" and "length d = length p"
    and "\<And>i. i < length p \<Longrightarrow> 0 < p ! i \<and> 0 < m ! i"
  shows "kld (map Fin p) (map Fin m) (map Fin d) = Inr (Fin (KL p m d))"
proof -
  define k where "k = length p"
  have l: "length p = k" "length m = k" "length d = k" using assms(1,2) by (simp_all add: k_def)
  have pos: "0 < p ! i" "0 < m ! i" "m ! i \<noteq> 0" "0 < p ! i / m ! i" if "i < k" for i
    using assms(3)[of i] that by (simp_all add: k_def)
  have 1: "ew fdiv (map Fin p) (map Fin m) = Inr (map (\<lambda>i. Fin (p ! i / m ! i)) [0..<k])"
    using pos by (simp add: ew_same_length l cong: map_cong)
  have 2: "map flog2 (map (\<lambda>i. Fin (p ! i / m ! i)) [0..<k]) =
           map (\<lambda>i. Fin (log 2 (p ! i / m ! i))) [0..<k]"
    using pos by (simp cong: map_cong)
  have 3: "ew fmul (map Fin p) (map (\<lambda>i. Fin (log 2 (p ! i / m ! i))) [0..<k]) =
           Inr (map (\<lambda>i. Fin (p ! i * log 2 (p ! i / m ! i))) [0..<k])"
    by (simp add: ew_same_length l cong: map_cong)
  have 4: "ew fmul (map (\<lambda>i. Fin (p ! i * log 2 (p ! i / m ! i))) [0..<k]) (map Fin d) =
           Inr (map (\<lambda>i. Fin (p ! i * log 2 (p ! i / m ! i) * d ! i)) [0..<k])"
    by (simp add: ew_same_length l cong: map_cong)
  have 5: "tsum (map (\<lambda>i. Fin (p ! i * log 2 (p ! i / m ! i) * d ! i)) [0..<k]) =
           Fin (\<Sum>i<k. p ! i * log 2 (p ! i / m ! i) * d ! i)"
    using tsum_Fin[of "map (\<lambda>i. p ! i * log 2 (p ! i / m ! i) * d ! i) [0..<k]"]
    by (simp add: sum_list_upt_sum comp_def)
  show ?thesis
    unfolding kld_def 1 ebind_Inr 2 3 4 5 by (simp add: KL_def l)
qed

lemma discount_of_rank_Fin:
  assumes "1 \<le> r"
  shows "discount_of_rank r = Fin (discount r)"
proof -
  have "(2::real) \<le> real r + 1" using assms by simp
  then have "log 2 2 \<le> log 2 (real r + 1)" by (subst log_le_cancel_iff) simp_all
  then have "1 \<le> log 2 (real r + 1)" by simp
  then have nz: "log 2 (real r + 1) \<noteq> 0" by linarith
  have "flog2 (fadd (Fin (real r)) (Fin 1)) = Fin (log 2 (real r + 1))"
    by (simp add: add_pos_nonneg)
  moreover have "fdiv (Fin 1) (Fin (log 2 (real r + 1))) = Fin (1 / log 2 (real r + 1))"
    using nz by (simp only: fdiv.simps if_P not_False_eq_True if_True)
  ultimately show ?thesis by (simp only: discount_of_rank_def discount_def)
qed

lemma lrd_with_unfold:
  "lrd_with off pred gt =
   (KL (softmax_real pred)
       (map (\<lambda>i. (softmax_real pred ! i + softmax_real gt ! i) / 2 + off) [0..<length pred])
       (map (\<lambda>i. discount (rank_in (order_desc gt) i)) [0..<length pred]) +
    KL (softmax_real gt)
       (map (\<lambda>i. (softmax_real pred ! i + softmax_real gt ! i) / 2 + off) [0..<length pred])
       (map (\<lambda>i. discount (rank_in (order_desc gt) i)) [0..<length pred])) / 2"
  by (simp add: lrd_with_def Let_def order_desc_softmax)

lemma jsd_Fin:
  assumes "length pred = length gt" and "0 \<le> eps"
  shows "jsd (map Fin pred) (map Fin gt) eps = Inr (Fin (lrd_half pred gt eps))"
proof -
  define k where "k = length pred"
  define P where "P = softmax_real pred"
  define Q where "Q = softmax_real gt"
  define M where "M = map (\<lambda>i. (P ! i + Q ! i) / 2 + eps / 2) [0..<k]"
  define ord where "ord = order_desc gt"
  define D where "D = map (\<lambda>i. discount (rank_in ord i)) [0..<k]"
  have l: "length P = k" "length Q = k" "length M = k" "length D = k" "length ord = k"
    using assms(1) by (simp_all add: P_def Q_def M_def D_def ord_def k_def)
  have pos: "0 < P ! i" "0 < Q ! i" if "i < k" for i
    using that assms(1) by (simp_all add: P_def Q_def k_def softmax_real_pos)
  have 1: "softmax (map Fin pred) = map Fin P" "softmax (map Fin gt) = map Fin Q"
    by (simp_all add: softmax_Fin P_def Q_def)
  have 2: "ew fadd (map Fin P) (map Fin Q) = Inr (map (\<lambda>i. Fin (P ! i + Q ! i)) [0..<k])"
    by (simp add: ew_same_length l cong: map_cong)
  have 3: "map (\<lambda>x. fmul (Fin (1/2)) (fadd x (Fin eps))) (map (\<lambda>i. Fin (P ! i + Q ! i)) [0..<k]) =
           map Fin M"
    by (simp add: M_def add_divide_distrib)
  have 4: "argsort_desc (map Fin gt) = ord" by (simp add: argsort_desc_Fin ord_def)
  have o: "distinct ord" "set ord = {..<length ord}" by (simp_all add: ord_def)
  have 5: "map (\<lambda>i. i + 1) (argsort ord) = map (rank_in ord) [0..<k]"
  proof (rule nth_equalityI)
    show "length (map (\<lambda>i. i + 1) (argsort ord)) = length (map (rank_in ord) [0..<k])"
      by (simp add: l)
    fix i assume "i < length (map (\<lambda>i. i + 1) (argsort ord))"
    then have i: "i < length ord" by simp
    from argsort_rank[OF o i] i show "map (\<lambda>i. i + 1) (argsort ord) ! i = map (rank_in ord) [0..<k] ! i"
      by (simp add: l)
  qed
  have 6: "map discount_of_rank (map (rank_in ord) [0..<k]) = map Fin D"
    by (simp add: D_def discount_of_rank_Fin rank_in_def)
  have mp: "0 < M ! i" if "i < k" for i
    using pos[OF that] assms(2) that by (simp add: M_def add_pos_nonneg)
  have 7: "kld (map Fin P) (map Fin M) (map Fin D) = Inr (Fin (KL P M D))"
    by (rule kld_Fin) (simp_all add: l pos mp)
  have 8: "kld (map Fin Q) (map Fin M) (map Fin D) = Inr (Fin (KL Q M D))"
    by (rule kld_Fin) (simp_all add: l pos mp)
  have 9: "lrd_half pred gt eps = (KL P M D + KL Q M D) / 2"
    unfolding lrd_half_def lrd_with_unfold P_def Q_def M_def D_def ord_def k_def ..
  show ?thesis
    unfolding jsd_def Let_def 1 2 ebind_Inr 3 4 5 6 7 8 9 by simp
qed

lemma example_line_loss_Fin:
  "example_line_loss (map Fin att) ll = Inr (Fin (line_loss_formula lrd_half att ll))"
proof -
  define n where "n = length ll"
  define a where "a = take n att"
  define idx where "idx = take (n div 5) (order_desc a)"
  have s: "sort_desc (take n (map Fin att)) = (map (\<lambda>i. Fin (a ! i)) (order_desc a), order_desc a)"
    unfolding take_map a_def[symmetric] by (rule sort_desc_Fin)
  have lt: "i < length a" if "i \<in> set idx" for i
  proof -
    from that have "i \<in> set (order_desc a)" unfolding idx_def by (rule in_set_takeD)
    then show ?thesis by simp
  qed
  have av: "map (\<lambda>i. a ! i) idx = map (\<lambda>i. att ! i) idx"
    using lt by (simp add: a_def)
  have "example_line_loss (map Fin att) ll =
        jsd (map Fin (map (\<lambda>i. a ! i) idx)) (map Fin (map (\<lambda>i. ll ! i) idx)) default_epsilon"
    unfolding example_line_loss_def Let_def n_def[symmetric] s
    by (simp add: idx_def take_map comp_def)
  also have "\<dots> = Inr (Fin (lrd_half (map (\<lambda>i. a ! i) idx) (map (\<lambda>i. ll ! i) idx) default_epsilon))"
    by (rule jsd_Fin) (simp_all add: default_epsilon_def)
  also have "\<dots> = Inr (Fin (line_loss_formula lrd_half att ll))"
    unfolding av by (simp add: line_loss_formula_def top_k_positions_def Let_def idx_def a_def n_def)
  finally show ?thesis .
qed

section \<open>Bounds on the divergence: lemmas\<close>

lemma mul_ln_ratio_ge:
  fixes p m :: real
  assumes "0 < p" and "0 < m"
  shows "p - m \<le> p * ln (p / m)"
proof -
  have "ln (m / p) \<le> m / p - 1" using assms by (intro ln_le_minus_one) simp
  moreover have "ln (p / m) = - ln (m / p)" using assms by (simp add: ln_divide_pos)
  ultimately have "1 - m / p \<le> ln (p / m)" by simp
  then have "p * (1 - m / p) \<le> p * ln (p / m)" using assms(1) by (intro mult_left_mono) simp_all
  moreover have "p * (1 - m / p) = p - m" using assms(1) by (simp add: field_simps)
  ultimately show ?thesis by simp
qed

lemma bracket_lower:
  fixes p q off :: real
  assumes "0 < p" and "0 < q" and "0 \<le> off"
  defines "m \<equiv> (p + q) / 2 + off"
  shows "- (2 * off) / ln 2 \<le> p * log 2 (p / m) + q * log 2 (q / m)"
proof -
  have m: "0 < m" using assms by (simp add: m_def add_pos_nonneg)
  have "p - m \<le> p * ln (p / m)" "q - m \<le> q * ln (q / m)"
    using assms(1,2) m by (simp_all add: mul_ln_ratio_ge)
  then have "(p - m) + (q - m) \<le> p * ln (p / m) + q * ln (q / m)" by (rule add_mono)
  moreover have "(p - m) + (q - m) = - (2 * off)" by (simp add: m_def field_simps)
  ultimately have "- (2 * off) \<le> p * ln (p / m) + q * ln (q / m)" by simp
  then have "- (2 * off) / ln 2 \<le> (p * ln (p / m) + q * ln (q / m)) / ln 2"
    by (intro divide_right_mono) simp_all
  also have "\<dots> = p * log 2 (p / m) + q * log 2 (q / m)"
    by (simp add: log_def add_divide_distrib)
  finally show ?thesis .
qed

lemma lrd_term_lower:
  assumes "0 < p" and "0 < q" and "0 \<le> off" and "0 < d" and "d \<le> 1"
  shows "- (2 * off) / ln 2 \<le> lrd_term off p q d"
proof -
  define b where "b = p * log 2 (p / ((p + q) / 2 + off)) + q * log 2 (q / ((p + q) / 2 + off))"
  have b: "- (2 * off) / ln 2 \<le> b" unfolding b_def using assms(1-3) by (rule bracket_lower)
  have neg: "- (2 * off) / ln 2 \<le> 0" using assms(3) by (simp add: divide_nonpos_pos)
  show ?thesis
  proof (cases "0 \<le> b")
    case True
    then have "0 \<le> d * b" using assms(4) by simp
    with neg show ?thesis by (simp add: lrd_term_def b_def)
  next
    case False
    then have "b \<le> d * b" using assms(4,5) by (simp add: mult_le_cancel_right2)
    with b show ?thesis by (simp add: lrd_term_def b_def)
  qed
qed

lemma lrd_term_diag:
  assumes "0 < p" and "0 \<le> off" and "0 < d"
  shows "lrd_term off p p d \<le> 0" and "off = 0 \<Longrightarrow> lrd_term off p p d = 0"
    and "0 < off \<Longrightarrow> lrd_term off p p d < 0"
proof -
  have e: "lrd_term off p p d = d * (2 * p * log 2 (p / (p + off)))"
    by (simp add: lrd_term_def)
  show z: "lrd_term off p p d = 0" if "off = 0" unfolding e using that assms(1) by simp
  show n: "lrd_term off p p d < 0" if "0 < off"
  proof -
    have "p / (p + off) < 1" "0 < p / (p + off)" using assms(1) that by simp_all
    then have "log 2 (p / (p + off)) < 0" by simp
    then have "2 * p * log 2 (p / (p + off)) < 0" using assms(1) by (simp add: mult_pos_neg)
    then show ?thesis unfolding e using assms(3) by (simp add: mult_pos_neg)
  qed
  show "lrd_term off p p d \<le> 0" using z n assms(2) by (cases "off = 0") (simp_all add: less_imp_le)
qed

lemma lrd_term_strict_mono:
  assumes "0 < p" and "0 < q" and "0 \<le> off" and "off < off'" and "0 < d"
  shows "lrd_term off' p q d < lrd_term off p q d"
proof -
  define m where "m = (p + q) / 2 + off"
  define m' where "m' = (p + q) / 2 + off'"
  have m: "0 < m" "m < m'" using assms by (simp_all add: m_def m'_def add_pos_nonneg)
  have l: "log 2 (x / m') < log 2 (x / m)" if "0 < x" for x :: real
  proof -
    have "x / m' < x / m" using m that by (simp add: frac_less2)
    moreover have "0 < x / m'" "0 < x / m" using m that by simp_all
    ultimately show ?thesis by simp
  qed
  have "p * log 2 (p / m') < p * log 2 (p / m)" "q * log 2 (q / m') < q * log 2 (q / m)"
    using l assms(1,2) by simp_all
  then have "p * log 2 (p / m') + q * log 2 (q / m') < p * log 2 (p / m) + q * log 2 (q / m)"
    by simp
  then show ?thesis
    unfolding lrd_term_def m_def[symmetric] m'_def[symmetric] using assms(5) by simp
qed

lemma discount_rank_bounds: "0 < discount (rank_in ord i)" "discount (rank_in ord i) \<le> 1"
proof -
  define r where "r = rank_in ord i"
  have "1 \<le> r" by (simp add: r_def rank_in_def)
  then have "(2::real) \<le> real r + 1" by simp
  then have "log 2 2 \<le> log 2 (real r + 1)" by (subst log_le_cancel_iff) simp_all
  then have "1 \<le> log 2 (real r + 1)" by simp
  then show "0 < discount (rank_in ord i)" "discount (rank_in ord i) \<le> 1"
    unfolding r_def[symmetric] discount_def by (simp_all add: divide_le_eq_1)
qed

lemma lrd_with_sum:
  assumes "length pred = length gt"
  shows "lrd_with off pred gt =
         (\<Sum>i<length pred. lrd_term off (softmax_real pred ! i) (softmax_real gt ! i)
                                (discount (rank_in (order_desc gt) i))) / 2"
proof -
  have "KL (softmax_real pred)
       (map (\<lambda>i. (softmax_real pred ! i + softmax_real gt ! i) / 2 + off) [0..<length pred])
       (map (\<lambda>i. discount (rank_in (order_desc gt) i)) [0..<length pred]) +
    KL (softmax_real gt)
       (map (\<lambda>i. (softmax_real pred ! i + softmax_real gt ! i) / 2 + off) [0..<length pred])
       (map (\<lambda>i. discount (rank_in (order_desc gt) i)) [0..<length pred]) =
    (\<Sum>i<length pred. lrd_term off (softmax_real pred ! i) (softmax_real gt ! i)
                                (discount (rank_in (order_desc gt) i)))"
    unfolding KL_def using assms
    by (simp add: lrd_term_def algebra_simps flip: sum.distrib)
  then show ?thesis unfolding lrd_with_unfold by simp
qed

lemma lrd_with_lower:
  assumes "length pred = length gt" and "0 \<le> off"
  shows "- (real (length pred) * off) / ln 2 \<le> lrd_with off pred gt"
proof -
  define k where "k = length pred"
  define t where "t = (\<lambda>i. lrd_term off (softmax_real pred ! i) (softmax_real gt ! i)
                                (discount (rank_in (order_desc gt) i)))"
  have "- (2 * off) / ln 2 \<le> t i" if "i < k" for i
    unfolding t_def using that assms
    by (intro lrd_term_lower softmax_real_pos discount_rank_bounds) (simp_all add: k_def)
  then have "(\<Sum>i<k. - (2 * off) / ln 2) \<le> (\<Sum>i<k. t i)" by (intro sum_mono) simp
  moreover have "(\<Sum>i<k. - (2 * off) / ln 2) = real k * (- (2 * off) / ln 2)" by simp
  ultimately have "real k * (- (2 * off) / ln 2) \<le> (\<Sum>i<k. t i)" by (simp only:)
  then have "real k * (- (2 * off) / ln 2) / 2 \<le> (\<Sum>i<k. t i) / 2"
    by (rule divide_right_mono) simp
  moreover have "real k * (- (2 * off) / ln 2) / 2 = - (real k * off) / ln 2" by simp
  ultimately have "- (real k * off) / ln 2 \<le> (\<Sum>i<k. t i) / 2" by (simp only:)
  then show ?thesis
    unfolding lrd_with_sum[OF assms(1)] k_def t_def .
qed

lemma lrd_with_diag:
  assumes "0 \<le> off"
  shows "lrd_with off xs xs \<le> 0" and "off = 0 \<Longrightarrow> lrd_with off xs xs = 0"
    and "xs \<noteq> [] \<Longrightarrow> 0 < off \<Longrightarrow> lrd_with off xs xs < 0"
proof -
  define k where "k = length xs"
  define t where "t = (\<lambda>i. lrd_term off (softmax_real xs ! i) (softmax_real xs ! i)
                                (discount (rank_in (order_desc xs) i)))"
  have e: "lrd_with off xs xs = (\<Sum>i<k. t i) / 2"
    unfolding k_def t_def by (rule lrd_with_sum) simp
  have le: "t i \<le> 0" if "i < k" for i
    unfolding t_def using that assms
    by (intro lrd_term_diag(1) softmax_real_pos discount_rank_bounds) (simp_all add: k_def)
  then have "(\<Sum>i<k. t i) \<le> (\<Sum>i<k. 0)" by (intro sum_mono) simp
  then show "lrd_with off xs xs \<le> 0" by (simp add: e)
  show "lrd_with off xs xs = 0" if "off = 0"
  proof -
    have "t i = 0" if "i < k" for i
      unfolding t_def using that assms \<open>off = 0\<close>
      by (intro lrd_term_diag(2) softmax_real_pos discount_rank_bounds) (simp_all add: k_def)
    then show ?thesis by (simp add: e)
  qed
  show "lrd_with off xs xs < 0" if "xs \<noteq> []" "0 < off"
  proof -
    have lt: "t i < 0" if "i < k" for i
      unfolding t_def using that assms \<open>0 < off\<close>
      by (intro lrd_term_diag(3) softmax_real_pos discount_rank_bounds) (simp_all add: k_def)
    have "0 < k" using that(1) by (simp add: k_def)
    then have "(\<Sum>i<k. t i) < (\<Sum>i<k. 0)" using lt by (intro sum_strict_mono) auto
    then show ?thesis by (simp add: e)
  qed
qed

lemma lrd_with_strict_mono:
  assumes "pred \<noteq> []" and "length pred = length gt" and "0 \<le> off" and "off < off'"
  shows "lrd_with off' pred gt < lrd_with off pred gt"
proof -
  define k where "k = length pred"
  define P where "P = softmax_real pred"
  define Q where "Q = softmax_real gt"
  define d where "d = (\<lambda>i. discount (rank_in (order_desc gt) i))"
  have lt: "lrd_term off' (P ! i) (Q ! i) (d i) < lrd_term off (P ! i) (Q ! i) (d i)" if "i < k" for i
    unfolding P_def Q_def d_def using that assms(2-4)
    by (intro lrd_term_strict_mono softmax_real_pos discount_rank_bounds) (simp_all add: k_def)
  have "0 < k" using assms(1) by (simp add: k_def)
  then have "(\<Sum>i<k. lrd_term off' (P ! i) (Q ! i) (d i)) < (\<Sum>i<k. lrd_term off (P ! i) (Q ! i) (d i))"
    using lt by (intro sum_strict_mono) auto
  then show ?thesis
    unfolding lrd_with_sum[OF assms(2)] k_def P_def Q_def d_def by simp
qed

section \<open>The line-rank divergence: theorems\<close>


lemma order_desc_five: "order_desc [0, 1/4, 1/2, 3/4, 1] = [4, 3, 2, 1, 0]"
  by (simp add: order_desc_def upt_rec)






end
